theory Spec2Isabelle
  imports Main "HOL-Library.Sublist" "HOL-Library.AList"
begin

section \<open>Paths, strings and exceptions\<close>

text \<open>
  A path is the list of its segments below the filesystem root (\<open>pathlib\<close>'s
  \<open>parts\<close> without the anchor); \<open>[]\<close> is the root itself. Strings are
  lists of characters; a character stands for a code point below 256.
\<close>

type_synonym path = "string list"

datatype exn_kind =
    FileNotFoundError | FileExistsError | NotADirectoryError | IsADirectoryError
  | PermissionError | SameFileError | ShutilError | ValueError | OSError

fun kind_name :: "exn_kind \<Rightarrow> string" where
  "kind_name FileNotFoundError = ''FileNotFoundError''"
| "kind_name FileExistsError = ''FileExistsError''"
| "kind_name NotADirectoryError = ''NotADirectoryError''"
| "kind_name IsADirectoryError = ''IsADirectoryError''"
| "kind_name PermissionError = ''PermissionError''"
| "kind_name SameFileError = ''SameFileError''"
| "kind_name ShutilError = ''Error''"
| "kind_name ValueError = ''ValueError''"
| "kind_name OSError = ''OSError''"

text \<open>An exception: its class and the text \<open>str(e)\<close> gives.\<close>

datatype exn = Exn (kind_of: exn_kind) (message_of: string)

text \<open>\<open>format_exception\<close>: \<open>f"{type(e).__name__}: {e}"\<close>.\<close>

definition format_exception :: "exn \<Rightarrow> string" where
  "format_exception e = kind_name (kind_of e) @ '': '' @ message_of e"

definition path_str :: "path \<Rightarrow> string" where
  "path_str p = (if p = [] then ''/'' else concat (map (\<lambda>s. CHR ''/'' # s) p))"

definition path_name :: "path \<Rightarrow> string" where
  "path_name p = (if p = [] then [] else last p)"

definition path_parent :: "path \<Rightarrow> path" where
  "path_parent p = butlast p"

text \<open>\<open>str.rfind\<close>: the index of the last occurrence, or -1.\<close>

definition rfind :: "char \<Rightarrow> string \<Rightarrow> int" where
  "rfind c s = (if c \<in> set s
                then int (length s) - 1 - int (length (takeWhile (\<lambda>x. x \<noteq> c) (rev s)))
                else - 1)"

text \<open>\<open>PurePath.suffix\<close> and \<open>PurePath.stem\<close>: split at the last dot, unless
  that dot opens or closes the name.\<close>

definition path_suffix :: "path \<Rightarrow> string" where
  "path_suffix p = (let name = path_name p; i = rfind CHR ''.'' name
                    in if 0 < i \<and> i < int (length name) - 1 then drop (nat i) name else [])"

definition path_stem :: "path \<Rightarrow> string" where
  "path_stem p = (let name = path_name p; i = rfind CHR ''.'' name
                  in if 0 < i \<and> i < int (length name) - 1 then take (nat i) name else name)"

text \<open>\<open>PurePath.relative_to\<close>: raises \<open>ValueError\<close> unless the base is a prefix.\<close>

definition relative_to :: "path \<Rightarrow> path \<Rightarrow> exn + path" where
  "relative_to p base =
     (if prefix base p then Inr (drop (length base) p)
      else Inl (Exn ValueError (path_str p @ '' is not in the subpath of '' @ path_str base)))"

text \<open>Decimal rendering of a natural number, as \<open>f"{i}"\<close> does.\<close>

definition digit_char :: "nat \<Rightarrow> char" where
  "digit_char d = char_of (48 + d)"

fun dec :: "nat \<Rightarrow> string" where
  "dec n = (if n < 10 then [digit_char n] else dec (n div 10) @ [digit_char (n mod 10)])"

text \<open>The format specifications \<open>04d\<close> and \<open>02d\<close>: sign first, then zeros up
  to the width.\<close>

definition zero_pad :: "nat \<Rightarrow> int \<Rightarrow> string" where
  "zero_pad w n =
     (if n < 0
      then CHR ''-'' # replicate (w - 1 - length (dec (nat (- n)))) CHR ''0'' @ dec (nat (- n))
      else replicate (w - length (dec (nat n))) CHR ''0'' @ dec (nat n))"

text \<open>\<open>str.isdigit\<close> on code points below 256: the ASCII digits and the three
  superscript digits of Latin-1 (U+00B2, U+00B3, U+00B9); false on the empty string.\<close>

definition ascii_digit :: "char \<Rightarrow> bool" where
  "ascii_digit c = (48 \<le> (of_char c :: nat) \<and> (of_char c :: nat) \<le> 57)"

definition char_isdigit :: "char \<Rightarrow> bool" where
  "char_isdigit c = (ascii_digit c \<or> (of_char c :: nat) \<in> {178, 179, 185})"

definition str_isdigit :: "string \<Rightarrow> bool" where
  "str_isdigit s = (s \<noteq> [] \<and> list_all char_isdigit s)"

section \<open>The filesystem\<close>

text \<open>
  The state of the filesystem is an association list from paths to nodes: regular
  files and directories on one device, without symbolic links. The order of the list is
  the order in which directories list their entries. Permissions are one read and one
  write bit per node.
\<close>

record meta =
  readable :: bool
  writable :: bool
  st_mtime :: int
  st_ctime :: int

datatype node = File meta string | Dir meta

type_synonym fs = "(path \<times> node) list"

fun node_meta :: "node \<Rightarrow> meta" where
  "node_meta (File m c) = m"
| "node_meta (Dir m) = m"

definition path_exists :: "fs \<Rightarrow> path \<Rightarrow> bool" where
  "path_exists fs p = (map_of fs p \<noteq> None)"

definition is_file :: "fs \<Rightarrow> path \<Rightarrow> bool" where
  "is_file fs p = (case map_of fs p of Some (File m c) \<Rightarrow> True | _ \<Rightarrow> False)"

definition is_dir :: "fs \<Rightarrow> path \<Rightarrow> bool" where
  "is_dir fs p = (case map_of fs p of Some (Dir m) \<Rightarrow> True | _ \<Rightarrow> False)"

definition errno_text :: "exn_kind \<Rightarrow> string" where
  "errno_text k =
     (case k of
        FileNotFoundError \<Rightarrow> ''[Errno 2] No such file or directory''
      | PermissionError \<Rightarrow> ''[Errno 13] Permission denied''
      | FileExistsError \<Rightarrow> ''[Errno 17] File exists''
      | NotADirectoryError \<Rightarrow> ''[Errno 20] Not a directory''
      | IsADirectoryError \<Rightarrow> ''[Errno 21] Is a directory''
      | _ \<Rightarrow> ''[Errno 22] Invalid argument'')"

definition os_error :: "exn_kind \<Rightarrow> path \<Rightarrow> exn" where
  "os_error k p = Exn k (errno_text k @ '': '' @ [char_of (39::nat)] @ path_str p @ [char_of (39::nat)])"

text \<open>What the system answers for a path that does not resolve: \<open>ENOTDIR\<close>
  when a regular file stands where a directory is needed, \<open>ENOENT\<close> otherwise.\<close>

definition unresolved :: "fs \<Rightarrow> path \<Rightarrow> exn" where
  "unresolved fs p =
     (if list_ex (is_file fs) (butlast (prefixes p)) then os_error NotADirectoryError p
      else os_error FileNotFoundError p)"

text \<open>\<open>os.stat\<close>.\<close>

definition os_stat :: "fs \<Rightarrow> path \<Rightarrow> exn + meta" where
  "os_stat fs p = (case map_of fs p of None \<Rightarrow> Inl (unresolved fs p) | Some n \<Rightarrow> Inr (node_meta n))"

text \<open>\<open>os.scandir\<close>/\<open>os.listdir\<close>: the names of the entries of a directory.\<close>

definition os_listdir :: "fs \<Rightarrow> path \<Rightarrow> exn + string list" where
  "os_listdir fs d =
     (case map_of fs d of
        None \<Rightarrow> Inl (unresolved fs d)
      | Some (File m c) \<Rightarrow> Inl (os_error NotADirectoryError d)
      | Some (Dir m) \<Rightarrow>
          if readable m then Inr (map last (filter (\<lambda>p. p \<noteq> [] \<and> butlast p = d) (map fst fs)))
          else Inl (os_error PermissionError d))"

text \<open>The environment of a run: the platform's conversion of a timestamp to the
  year and month of local time, the clock, and the text
  \<open>datetime.now().strftime('%Y-%m-%d %H-%M-%S')\<close> gives.\<close>

record env =
  localtime :: "int \<Rightarrow> int \<times> int"
  now :: int
  now_stamp :: string

text \<open>\<open>os.mkdir\<close>.\<close>

definition os_mkdir :: "env \<Rightarrow> fs \<Rightarrow> path \<Rightarrow> exn + fs" where
  "os_mkdir ev fs p =
     (if path_exists fs p then Inl (os_error FileExistsError p)
      else case map_of fs (butlast p) of
             None \<Rightarrow> Inl (unresolved fs p)
           | Some (File m c) \<Rightarrow> Inl (os_error NotADirectoryError p)
           | Some (Dir m) \<Rightarrow>
               if writable m
               then Inr (fs @ [(p, Dir \<lparr>readable = True, writable = True,
                                        st_mtime = now ev, st_ctime = now ev\<rparr>)])
               else Inl (os_error PermissionError p))"

text \<open>\<open>Path.mkdir(parents=False, exist_ok=True)\<close>, the last call of the
  recursion below: any \<open>OSError\<close> is forgiven when the path is a directory.\<close>

definition mkdir_exist_ok :: "env \<Rightarrow> fs \<Rightarrow> path \<Rightarrow> exn + fs" where
  "mkdir_exist_ok ev fs p =
     (case os_mkdir ev fs p of
        Inr fs' \<Rightarrow> Inr fs'
      | Inl e \<Rightarrow> if kind_of e = FileNotFoundError then Inl e
                 else if is_dir fs p then Inr fs else Inl e)"

text \<open>\<open>Path.mkdir(parents=True, exist_ok=True)\<close>. The state comes back also
  with an error: parents made before the failure stay.\<close>

fun path_mkdir :: "env \<Rightarrow> fs \<Rightarrow> path \<Rightarrow> fs \<times> (exn + unit)" where
  "path_mkdir ev fs p =
     (case os_mkdir ev fs p of
        Inr fs' \<Rightarrow> (fs', Inr ())
      | Inl e \<Rightarrow>
          if kind_of e = FileNotFoundError then
            (if p = [] then (fs, Inl e)
             else case path_mkdir ev fs (butlast p) of
                    (fs1, Inl e1) \<Rightarrow> (fs1, Inl e1)
                  | (fs1, Inr u) \<Rightarrow>
                      (case mkdir_exist_ok ev fs1 p of
                         Inl e2 \<Rightarrow> (fs1, Inl e2)
                       | Inr fs2 \<Rightarrow> (fs2, Inr ())))
          else if is_dir fs p then (fs, Inr ()) else (fs, Inl e))"

declare path_mkdir.simps [simp del]

text \<open>The last component joined to a directory, as \<open>os.path.join(dst, basename(src))\<close>
  and \<open>Path(src.name)\<close> give it: nothing for the root.\<close>

definition name_parts :: "path \<Rightarrow> path" where
  "name_parts p = (if p = [] then [] else [last p])"

text \<open>\<open>shutil.copy2\<close>: into the directory when the destination is one; the source
  is opened first, then the destination; mode bits and modification time are copied,
  the change time is the clock's. Returns the path written.\<close>

definition shutil_copy2 :: "env \<Rightarrow> fs \<Rightarrow> path \<Rightarrow> path \<Rightarrow> exn + (fs \<times> path)" where
  "shutil_copy2 ev fs src dst =
     (let real_dst = (if is_dir fs dst then dst @ name_parts src else dst) in
      if src = real_dst \<and> path_exists fs src
      then Inl (Exn SameFileError (path_str src @ '' and '' @ path_str real_dst @ '' are the same file''))
      else case map_of fs src of
             None \<Rightarrow> Inl (unresolved fs src)
           | Some (Dir m) \<Rightarrow> Inl (os_error IsADirectoryError src)
           | Some (File m c) \<Rightarrow>
               if \<not> readable m then Inl (os_error PermissionError src)
               else (case map_of fs real_dst of
                       Some (Dir dm) \<Rightarrow> Inl (os_error IsADirectoryError real_dst)
                     | Some (File dm dc) \<Rightarrow>
                         if writable dm
                         then Inr (AList.update real_dst (File (m\<lparr>st_ctime := now ev\<rparr>) c) fs, real_dst)
                         else Inl (os_error PermissionError real_dst)
                     | None \<Rightarrow>
                         (case map_of fs (butlast real_dst) of
                            None \<Rightarrow> Inl (unresolved fs real_dst)
                          | Some (File pm pc) \<Rightarrow> Inl (os_error NotADirectoryError real_dst)
                          | Some (Dir pm) \<Rightarrow>
                              if writable pm
                              then Inr (AList.update real_dst (File (m\<lparr>st_ctime := now ev\<rparr>) c) fs, real_dst)
                              else Inl (os_error PermissionError real_dst))))"

text \<open>\<open>os.unlink\<close>.\<close>

definition os_unlink :: "fs \<Rightarrow> path \<Rightarrow> exn + fs" where
  "os_unlink fs p =
     (case map_of fs p of
        None \<Rightarrow> Inl (unresolved fs p)
      | Some (Dir m) \<Rightarrow> Inl (os_error IsADirectoryError p)
      | Some (File m c) \<Rightarrow>
          (case map_of fs (butlast p) of
             Some (Dir pm) \<Rightarrow>
               if writable pm then Inr (AList.delete p fs) else Inl (os_error PermissionError p)
           | _ \<Rightarrow> Inl (unresolved fs p)))"

text \<open>\<open>os.rename\<close> on one device: both parent directories must be writable; a
  regular file replaces a regular file; a directory takes its subtree with it.\<close>

definition rekey :: "path \<Rightarrow> path \<Rightarrow> fs \<Rightarrow> fs" where
  "rekey src dst fs =
     map (\<lambda>(p, x). (if prefix src p then dst @ drop (length src) p else p, x)) fs"

definition os_rename :: "fs \<Rightarrow> path \<Rightarrow> path \<Rightarrow> exn + fs" where
  "os_rename fs src dst =
     (case map_of fs src of
        None \<Rightarrow> Inl (unresolved fs src)
      | Some n \<Rightarrow>
          if src = dst then Inr fs
          else (case (map_of fs (butlast src), map_of fs (butlast dst)) of
                  (Some (Dir sm), Some (Dir dm)) \<Rightarrow>
                    if \<not> (writable sm \<and> writable dm) then Inl (os_error PermissionError src)
                    else (case n of
                            File m c \<Rightarrow>
                              (case map_of fs dst of
                                 Some (Dir xm) \<Rightarrow> Inl (os_error IsADirectoryError dst)
                               | _ \<Rightarrow> Inr (AList.update dst n (AList.delete src fs)))
                          | Dir m \<Rightarrow>
                              (case map_of fs dst of
                                 Some (File xm xc) \<Rightarrow> Inl (os_error NotADirectoryError dst)
                               | Some (Dir xm) \<Rightarrow>
                                   if list_ex (\<lambda>p. p \<noteq> [] \<and> butlast p = dst) (map fst fs)
                                   then Inl (Exn OSError ''[Errno 39] Directory not empty'')
                                   else Inr (rekey src dst (AList.delete dst fs))
                               | None \<Rightarrow>
                                   if prefix src dst then Inl (Exn OSError ''[Errno 22] Invalid argument'')
                                   else Inr (rekey src dst fs)))
                | (_, Some (File dm dc)) \<Rightarrow> Inl (os_error NotADirectoryError dst)
                | _ \<Rightarrow> Inl (unresolved fs dst)))"

text \<open>
  \<open>shutil.move\<close>: into the directory when the destination is one, refusing a name
  taken there; \<open>os.rename\<close>, and when that raises an \<open>OSError\<close>, for a regular
  file, \<open>copy2\<close> followed by \<open>os.unlink\<close>. The state comes back also with an
  error: a copy made before a failing unlink stays. Every source \<open>sort_files\<close>
  hands over is a regular file; the fallback for a directory source
  (\<open>copytree\<close> and \<open>rmtree\<close>) is not modelled and raises \<open>shutil.Error\<close>.
\<close>

definition shutil_move :: "env \<Rightarrow> fs \<Rightarrow> path \<Rightarrow> path \<Rightarrow> fs \<times> (exn + path)" where
  "shutil_move ev fs src dst =
     (if is_dir fs dst \<and> src = dst then (fs, Inr dst)
      else
        let real_dst = (if is_dir fs dst then dst @ name_parts src else dst) in
        if is_dir fs dst \<and> path_exists fs real_dst
        then (fs, Inl (Exn ShutilError (''Destination path '' @ path_str real_dst @ '' already exists'')))
        else case os_rename fs src real_dst of
               Inr fs' \<Rightarrow> (fs', Inr real_dst)
             | Inl e \<Rightarrow>
                 if is_dir fs src
                 then (fs, Inl (Exn ShutilError (''Cannot move a directory '' @ path_str src)))
                 else (case shutil_copy2 ev fs src real_dst of
                         Inl e1 \<Rightarrow> (fs, Inl e1)
                       | Inr (fs1, d) \<Rightarrow>
                           (case os_unlink fs1 src of
                              Inl e2 \<Rightarrow> (fs1, Inl e2)
                            | Inr fs2 \<Rightarrow> (fs2, Inr real_dst))))"

section \<open>PathNamer: \<open>unique_destination_path\<close>\<close>

definition candidate :: "path \<Rightarrow> string \<Rightarrow> string \<Rightarrow> nat \<Rightarrow> path" where
  "candidate parent stm sfx i = parent @ [stm @ '' ('' @ dec i @ '')'' @ sfx]"

text \<open>The \<open>while True\<close> loop, from the counter \<open>i\<close> on.\<close>

function probe :: "fs \<Rightarrow> path \<Rightarrow> string \<Rightarrow> string \<Rightarrow> nat \<Rightarrow> path" where
  "probe fs parent stm sfx i =
     (if \<not> path_exists fs (candidate parent stm sfx i) then candidate parent stm sfx i
      else probe fs parent stm sfx (i + 1))"
  by pat_completeness auto

text \<open>The loop ends: the candidates are pairwise different (the decimal rendering is
  injective) and the filesystem holds finitely many paths.\<close>

declare dec.simps [simp del]

lemma digit_char_inj: "a < 10 \<Longrightarrow> b < 10 \<Longrightarrow> digit_char a = digit_char b \<Longrightarrow> a = b"
proof -
  assume a: "a < 10" and b: "b < 10" and e: "digit_char a = digit_char b"
  from e have "(of_char (char_of (48 + a) :: char) :: nat) = of_char (char_of (48 + b) :: char)"
    unfolding digit_char_def by simp
  then have "(48 + a) mod 256 = (48 + b) mod 256" by simp
  with a b show "a = b" by simp
qed

lemma dec_nonempty: "dec n \<noteq> []"
  by (subst dec.simps) simp

lemma dec_inj: "dec a = dec b \<Longrightarrow> a = b"
proof (induction a arbitrary: b rule: dec.induct)
  case (1 n)
  show ?case
  proof (cases "n < 10")
    case True
    then have dn: "dec n = [digit_char n]" by (subst dec.simps) simp
    show ?thesis
    proof (cases "b < 10")
      case True
      then have "dec b = [digit_char b]" by (subst dec.simps) simp
      with dn "1.prems" \<open>n < 10\<close> True show ?thesis by (auto dest: digit_char_inj)
    next
      case False
      then have "dec b = dec (b div 10) @ [digit_char (b mod 10)]" by (subst dec.simps) simp
      with dn "1.prems" dec_nonempty[of "b div 10"] show ?thesis by (cases "dec (b div 10)") auto
    qed
  next
    case False
    then have dn: "dec n = dec (n div 10) @ [digit_char (n mod 10)]" by (subst dec.simps) simp
    show ?thesis
    proof (cases "b < 10")
      case True
      then have "dec b = [digit_char b]" by (subst dec.simps) simp
      with dn "1.prems" dec_nonempty[of "n div 10"] show ?thesis by (cases "dec (n div 10)") auto
    next
      case b: False
      then have db: "dec b = dec (b div 10) @ [digit_char (b mod 10)]" by (subst dec.simps) simp
      from dn db "1.prems" have e1: "dec (n div 10) = dec (b div 10)"
        and e2: "digit_char (n mod 10) = digit_char (b mod 10)" by auto
      from "1.IH"[OF False e1] have "n div 10 = b div 10" .
      moreover from e2 have "n mod 10 = b mod 10" by (auto dest!: digit_char_inj[rotated 2])
      ultimately show ?thesis by (metis div_mult_mod_eq)
    qed
  qed
qed

lemma candidate_inj: "candidate parent stm sfx i = candidate parent stm sfx j \<Longrightarrow> i = j"
  by (auto simp: candidate_def dest: dec_inj)

lemma path_exists_keys: "path_exists fs p \<longleftrightarrow> p \<in> fst ` set fs"
  by (simp add: path_exists_def map_of_eq_None_iff)

lemma finite_taken: "finite {j. path_exists fs (candidate parent stm sfx j)}"
proof -
  have "inj (candidate parent stm sfx)"
    by (rule injI) (rule candidate_inj)
  then have "finite (candidate parent stm sfx -` (fst ` set fs))"
    by (intro finite_vimageI) simp_all
  moreover have "{j. path_exists fs (candidate parent stm sfx j)} = candidate parent stm sfx -` (fst ` set fs)"
    by (auto simp: path_exists_keys)
  ultimately show ?thesis by simp
qed

termination probe
proof (relation "measure (\<lambda>(fs, parent, stm, sfx, i).
          card {j. i \<le> j \<and> path_exists fs (candidate parent stm sfx j)})", goal_cases)
  case 1
  show ?case by simp
next
  case (2 fs parent stm sfx i)
  let ?A = "{j. i + 1 \<le> j \<and> path_exists fs (candidate parent stm sfx j)}"
  let ?B = "{j. i \<le> j \<and> path_exists fs (candidate parent stm sfx j)}"
  have fin: "finite ?B"
    by (rule finite_subset[OF _ finite_taken[of fs parent stm sfx]]) auto
  from 2 have "i \<in> ?B" "i \<notin> ?A" by auto
  moreover have "?A \<subseteq> ?B" by auto
  ultimately have "?A \<subset> ?B" by blast
  with fin have "card ?A < card ?B" by (rule psubset_card_mono)
  then show ?case by simp
qed

declare probe.simps [simp del]

text \<open>\<open>unique_destination_path\<close>.\<close>

definition unique_destination_path :: "fs \<Rightarrow> path \<Rightarrow> path" where
  "unique_destination_path fs dest =
     (if \<not> path_exists fs dest then dest
      else probe fs (path_parent dest) (path_stem dest) (path_suffix dest) 1)"

section \<open>FileScanner: \<open>gather_files\<close>\<close>

text \<open>The test on \<open>rel.parts\<close> that skips a file already under YYYY/MM.\<close>

definition already_sorted :: "path \<Rightarrow> bool" where
  "already_sorted parts =
     (length parts \<ge> 3 \<and> length (parts ! 0) = 4 \<and> str_isdigit (parts ! 0)
      \<and> length (parts ! 1) = 2 \<and> str_isdigit (parts ! 1))"

text \<open>The body of the inner loop, for one name of \<open>files_\<close>: what it appends to
  \<open>gathered\<close>.\<close>

definition gather_entry :: "path \<Rightarrow> path \<Rightarrow> string \<Rightarrow> path list" where
  "gather_entry base_dir r name =
     (let p = r @ [name] in
      case relative_to p base_dir of
        Inl e \<Rightarrow> [p]
      | Inr rel \<Rightarrow> if already_sorted rel then [] else [p])"

definition backup_prefix :: string where
  "backup_prefix = ''FolderChronicle Backup''"

definition max_depth :: "fs \<Rightarrow> nat" where
  "max_depth fs = fold max (map (length \<circ> fst) fs) 0"

text \<open>
  \<open>os.walk\<close>, top down, from the directory \<open>root\<close>: a directory that cannot be
  listed yields nothing (the error is ignored, \<open>onerror\<close> being \<open>None\<close>); the
  entries are split into directories and the rest and yielded with \<open>root\<close>; the
  walk then enters the directories the consumer has left in \<open>dirs\<close>, which
  \<open>keep\<close> stands for.
\<close>

function os_walk :: "fs \<Rightarrow> (string \<Rightarrow> bool) \<Rightarrow> path \<Rightarrow> (path \<times> string list \<times> string list) list" where
  "os_walk fs keep root =
     (case os_listdir fs root of
        Inl e \<Rightarrow> []
      | Inr names \<Rightarrow>
          (root, filter (\<lambda>n. is_dir fs (root @ [n])) names,
                filter (\<lambda>n. \<not> is_dir fs (root @ [n])) names)
          # concat (map (\<lambda>d. os_walk fs keep (root @ [d]))
                        (filter keep (filter (\<lambda>n. is_dir fs (root @ [n])) names))))"
  by pat_completeness auto

text \<open>The walk ends: every directory it enters is a path of the filesystem, one
  segment longer than the directory before.\<close>

lemma fold_max_ge: "fold max xs (a::nat) \<ge> a"
proof (induction xs arbitrary: a)
  case Nil
  show ?case by simp
next
  case (Cons y ys)
  have "a \<le> max y a" by simp
  also have "max y a \<le> fold max ys (max y a)" by (rule Cons.IH)
  finally show ?case by simp
qed

lemma fold_max_mem: "x \<in> set xs \<Longrightarrow> x \<le> fold max xs (a::nat)"
proof (induction xs arbitrary: a)
  case Nil
  then show ?case by simp
next
  case (Cons y ys)
  show ?case
  proof (cases "x = y")
    case True
    have "max y a \<le> fold max ys (max y a)" by (rule fold_max_ge)
    with True show ?thesis by simp
  next
    case False
    with Cons show ?thesis by simp
  qed
qed

lemma max_depth_key: "p \<in> fst ` set fs \<Longrightarrow> length p \<le> max_depth fs"
  unfolding max_depth_def by (rule fold_max_mem) auto

lemma os_listdir_names:
  "os_listdir fs d = Inr names \<Longrightarrow> n \<in> set names \<Longrightarrow> d @ [n] \<in> fst ` set fs"
proof -
  assume l: "os_listdir fs d = Inr names" and n: "n \<in> set names"
  from l have "names = map last (filter (\<lambda>p. p \<noteq> [] \<and> butlast p = d) (map fst fs))"
    by (auto simp: os_listdir_def split: option.splits node.splits if_splits)
  with n obtain p where p: "p \<in> fst ` set fs" "p \<noteq> []" "butlast p = d" "n = last p"
    by auto
  from p(2,3,4) have "d @ [n] = p" using append_butlast_last_id[of p] by simp
  with p(1) show ?thesis by simp
qed

termination os_walk
proof (relation "measure (\<lambda>(fs, keep, root). Suc (max_depth fs) - length root)", goal_cases)
  case 1
  show ?case by simp
next
  case (2 fs keep root names d)
  then have "d \<in> set names" by simp
  with 2(1) have "root @ [d] \<in> fst ` set fs" by (rule os_listdir_names)
  then have "length (root @ [d]) \<le> max_depth fs" by (rule max_depth_key)
  then show ?case by simp
qed

declare os_walk.simps [simp del]

text \<open>The body of the loop over the walk, for one triple: the directories are pruned
  through \<open>keep_dir\<close> (the assignment to \<open>dirs[:]\<close>), every name of
  \<open>files_\<close> goes through \<open>gather_entry\<close>.\<close>

definition keep_dir :: "string \<Rightarrow> bool" where
  "keep_dir d = (\<not> prefix backup_prefix d)"

definition gather_root :: "path \<Rightarrow> path \<times> string list \<times> string list \<Rightarrow> path list" where
  "gather_root base_dir t =
     (case t of (root, dirs, files_) \<Rightarrow> concat (map (gather_entry base_dir root) files_))"

text \<open>\<open>Path.iterdir\<close>: the children, as paths; the listing's error propagates.\<close>

definition path_iterdir :: "fs \<Rightarrow> path \<Rightarrow> exn + path list" where
  "path_iterdir fs d =
     (case os_listdir fs d of Inl e \<Rightarrow> Inl e | Inr names \<Rightarrow> Inr (map (\<lambda>n. d @ [n]) names))"

text \<open>\<open>gather_files\<close>.\<close>

definition gather_files :: "fs \<Rightarrow> path \<Rightarrow> bool \<Rightarrow> exn + path list" where
  "gather_files fs base_dir include_subdirs =
     (if include_subdirs
      then Inr (filter (is_file fs)
                  (concat (map (gather_root base_dir) (os_walk fs keep_dir base_dir))))
      else case path_iterdir fs base_dir of
             Inl e \<Rightarrow> Inl e
           | Inr ps \<Rightarrow> Inr (filter (is_file fs) ps))"

section \<open>BackupStage and SortEngine\<close>

record SortOptions =
  base_dir :: path
  include_subdirs :: bool
  use_ctime :: bool
  copy_no_backup :: bool

text \<open>The body of the \<open>try\<close> of \<open>_backup_files\<close>, for one source.\<close>

definition backup_one :: "env \<Rightarrow> fs \<Rightarrow> path \<Rightarrow> path \<Rightarrow> path \<Rightarrow> fs \<times> (exn + unit)" where
  "backup_one ev fs base backup_root src =
     (let rel = (case relative_to src base of Inr r \<Rightarrow> r | Inl e \<Rightarrow> name_parts src);
          dest_backup = backup_root @ rel in
      case path_mkdir ev fs (path_parent dest_backup) of
        (fs1, Inl e) \<Rightarrow> (fs1, Inl e)
      | (fs1, Inr u) \<Rightarrow>
          (case shutil_copy2 ev fs1 src dest_backup of
             Inl e \<Rightarrow> (fs1, Inl e)
           | Inr (fs2, d) \<Rightarrow> (fs2, Inr ())))"

text \<open>The loop of \<open>_backup_files\<close> over the state, the error count and the log.\<close>

fun backup_loop ::
  "env \<Rightarrow> path \<Rightarrow> path \<Rightarrow> path list \<Rightarrow> fs \<times> nat \<times> string list \<Rightarrow> fs \<times> nat \<times> string list" where
  "backup_loop ev base backup_root [] st = st"
| "backup_loop ev base backup_root (src # rest) (fs, errors, logs) =
     (case backup_one ev fs base backup_root src of
        (fs', Inr u) \<Rightarrow> backup_loop ev base backup_root rest (fs', errors, logs)
      | (fs', Inl e) \<Rightarrow>
          backup_loop ev base backup_root rest
            (fs', errors + 1,
             logs @ [''Backup error '' @ path_str src @ '': '' @ format_exception e]))"

definition backup_files :: "env \<Rightarrow> fs \<Rightarrow> path list \<Rightarrow> path \<Rightarrow> fs \<times> nat \<times> string list" where
  "backup_files ev fs files base =
     backup_loop ev base (base @ [backup_prefix @ '' '' @ now_stamp ev]) files (fs, 0, [])"

text \<open>\<open>datetime.fromtimestamp\<close>, as far as the year and the month: the platform's
  local time, and the range check of \<open>datetime\<close> (years 1 to 9999).\<close>

definition fromtimestamp :: "env \<Rightarrow> int \<Rightarrow> exn + (int \<times> int)" where
  "fromtimestamp ev ts =
     (case localtime ev ts of
        (y, m) \<Rightarrow>
          if 1 \<le> y \<and> y \<le> 9999 \<and> 1 \<le> m \<and> m \<le> 12 then Inr (y, m)
          else Inl (Exn ValueError ''year is out of range''))"

text \<open>The body of the \<open>try\<close> of the relocation loop, for one source: the new state
  and either the exception raised or the destination with the year and month texts.\<close>

definition relocate_one ::
  "env \<Rightarrow> SortOptions \<Rightarrow> fs \<Rightarrow> path \<Rightarrow> fs \<times> (exn + path \<times> string \<times> string)" where
  "relocate_one ev options fs src =
     (case os_stat fs src of
        Inl e \<Rightarrow> (fs, Inl e)
      | Inr st \<Rightarrow>
          (case fromtimestamp ev (if use_ctime options then st_ctime st else st_mtime st) of
             Inl e \<Rightarrow> (fs, Inl e)
           | Inr (y, m) \<Rightarrow>
               let year = zero_pad 4 y;
                   month = zero_pad 2 m;
                   dest_dir = base_dir options @ [year, month] in
               (case path_mkdir ev fs dest_dir of
                  (fs1, Inl e) \<Rightarrow> (fs1, Inl e)
                | (fs1, Inr u) \<Rightarrow>
                    let dest = unique_destination_path fs1 (dest_dir @ name_parts src) in
                    if copy_no_backup options
                    then (case shutil_copy2 ev fs1 src dest of
                            Inl e \<Rightarrow> (fs1, Inl e)
                          | Inr (fs2, d) \<Rightarrow> (fs2, Inr (dest, year, month)))
                    else (case shutil_move ev fs1 src dest of
                            (fs2, Inl e) \<Rightarrow> (fs2, Inl e)
                          | (fs2, Inr d) \<Rightarrow> (fs2, Inr (dest, year, month))))))"

text \<open>The relocation loop of \<open>sort_files\<close> over the state, \<open>moved\<close>,
  \<open>errors\<close> and \<open>logs\<close>.\<close>

fun sort_loop ::
  "env \<Rightarrow> SortOptions \<Rightarrow> path list \<Rightarrow> fs \<times> nat \<times> nat \<times> string list
     \<Rightarrow> fs \<times> nat \<times> nat \<times> string list" where
  "sort_loop ev options [] st = st"
| "sort_loop ev options (src # rest) (fs, moved, errors, logs) =
     (case relocate_one ev options fs src of
        (fs', Inr (dest, year, month)) \<Rightarrow>
          sort_loop ev options rest
            (fs', moved + 1, errors,
             logs @ [(if copy_no_backup options then ''Copied: '' else ''Moved: '')
                     @ path_name src @ '' -> '' @ year @ ''/'' @ month @ ''/''])
      | (fs', Inl e) \<Rightarrow>
          sort_loop ev options rest
            (fs', moved, errors + 1,
             logs @ [''Error moving '' @ path_name src @ '': '' @ format_exception e]))"

text \<open>\<open>sort_files\<close>: the final state of the filesystem, and either the exception
  that left the function or the triple it returns.\<close>

definition sort_files ::
  "env \<Rightarrow> SortOptions \<Rightarrow> fs \<Rightarrow> fs \<times> (exn + nat \<times> nat \<times> string list)" where
  "sort_files ev options fs =
     (case gather_files fs (base_dir options) (include_subdirs options) of
        Inl e \<Rightarrow> (fs, Inl e)
      | Inr files \<Rightarrow>
          if files = [] then (fs, Inr (0, 0, [''No files found.'']))
          else
            (case (if \<not> copy_no_backup options
                   then backup_files ev fs files (base_dir options)
                   else (fs, 0, [])) of
               (fs1, b_errors, b_logs) \<Rightarrow>
                 (case sort_loop ev options files (fs1, 0, b_errors, b_logs) of
                    (fs2, moved, errors, logs) \<Rightarrow> (fs2, Inr (moved, errors, logs)))))"

section \<open>Concrete filesystems\<close>

text \<open>An environment for examples: local time is UTC, with the proleptic Gregorian
  calendar computed from the day number.\<close>

definition utc_calendar :: "int \<Rightarrow> int \<times> int" where
  "utc_calendar ts =
     (let z = ts div 86400 + 719468;
          era = z div 146097;
          doe = z mod 146097;
          yoe = (doe - doe div 1460 + doe div 36524 - doe div 146096) div 365;
          doy = doe - (365 * yoe + yoe div 4 - yoe div 100);
          mp = (5 * doy + 2) div 153;
          m = (if mp < 10 then mp + 3 else mp - 9)
      in (yoe + era * 400 + (if m \<le> 2 then 1 else 0), m))"

definition ev0 :: env where
  "ev0 = \<lparr>localtime = utc_calendar, now = 1700000000, now_stamp = ''2023-11-14 22-13-20''\<rparr>"

definition rw :: "int \<Rightarrow> meta" where
  "rw t = \<lparr>readable = True, writable = True, st_mtime = t, st_ctime = t\<rparr>"

definition opts :: "bool \<Rightarrow> bool \<Rightarrow> bool \<Rightarrow> SortOptions" where
  "opts r c n = \<lparr>base_dir = [''base''], include_subdirs = r, use_ctime = c, copy_no_backup = n\<rparr>"

text \<open>An empty base directory; two files last modified on 15 January 2023.\<close>

definition fs_empty :: fs where
  "fs_empty = [([], Dir (rw 0)), ([''base''], Dir (rw 0))]"

definition fs_two :: fs where
  "fs_two = [([], Dir (rw 0)), ([''base''], Dir (rw 0)),
             ([''base'', ''a.txt''], File (rw 1673780400) ''a''),
             ([''base'', ''b.txt''], File (rw 1673780400) ''b'')]"

section \<open>Empty candidate set\<close>

text \<open>
  C8. Whenever the scan yields no candidate file, \<open>sort_files\<close> returns at once with
  0 relocated, 0 failed and the log \<open>["No files found."]\<close>, and the filesystem is the
  one it started from: no directory is created, no backup made.
\<close>

theorem sort_files_empty_scan:
  "gather_files fs (base_dir options) (include_subdirs options) = Inr [] \<Longrightarrow>
   sort_files ev options fs = (fs, Inr (0, 0, [''No files found.'']))"
  by (simp add: sort_files_def)

theorem sort_files_empty_scan_witness:
  "gather_files fs_empty (base_dir (opts False False False)) (include_subdirs (opts False False False)) = Inr []
   \<and> sort_files ev0 (opts False False False) fs_empty = (fs_empty, Inr (0, 0, [''No files found.'']))"
proof -
  have h: "gather_files fs_empty (base_dir (opts False False False))
             (include_subdirs (opts False False False)) = Inr []"
    by code_simp
  from sort_files_empty_scan[OF h, of ev0] h show ?thesis by simp
qed

section \<open>Unique destinations\<close>

lemma probe_first:
  "\<not> path_exists fs (candidate parent stm sfx k) \<Longrightarrow> i \<le> k \<Longrightarrow>
   (\<And>j. i \<le> j \<Longrightarrow> j < k \<Longrightarrow> path_exists fs (candidate parent stm sfx j)) \<Longrightarrow>
   probe fs parent stm sfx i = candidate parent stm sfx k"
proof (induction "k - i" arbitrary: i)
  case 0
  then have "i = k" by simp
  with 0 show ?case by (subst probe.simps) simp
next
  case (Suc d)
  then have lt: "i < k" by simp
  with Suc.prems have ex: "path_exists fs (candidate parent stm sfx i)" by simp
  have "probe fs parent stm sfx (i + 1) = candidate parent stm sfx k"
    using Suc.hyps(2) Suc.prems lt by (intro Suc.hyps(1)) auto
  with ex show ?case by (subst probe.simps) simp
qed

lemma probe_result:
  "\<exists>k\<ge>i. probe fs parent stm sfx i = candidate parent stm sfx k
        \<and> \<not> path_exists fs (candidate parent stm sfx k)
        \<and> (\<forall>j. i \<le> j \<and> j < k \<longrightarrow> path_exists fs (candidate parent stm sfx j))"
proof (induction fs parent stm sfx i rule: probe.induct)
  case (1 fs parent stm sfx i)
  show ?case
  proof (cases "path_exists fs (candidate parent stm sfx i)")
    case False
    then have "probe fs parent stm sfx i = candidate parent stm sfx i"
      by (subst probe.simps) simp
    with False show ?thesis by (intro exI[of _ i]) auto
  next
    case True
    from "1.IH"[OF] True obtain k where k: "i + 1 \<le> k"
      "probe fs parent stm sfx (i + 1) = candidate parent stm sfx k"
      "\<not> path_exists fs (candidate parent stm sfx k)"
      "\<forall>j. i + 1 \<le> j \<and> j < k \<longrightarrow> path_exists fs (candidate parent stm sfx j)"
      by auto
    from True have "probe fs parent stm sfx i = probe fs parent stm sfx (i + 1)"
      by (subst probe.simps) simp
    moreover have "\<forall>j. i \<le> j \<and> j < k \<longrightarrow> path_exists fs (candidate parent stm sfx j)"
    proof (intro allI impI)
      fix j assume "i \<le> j \<and> j < k"
      then show "path_exists fs (candidate parent stm sfx j)"
        using True k(4) by (cases "j = i") auto
    qed
    ultimately show ?thesis using k by (intro exI[of _ k]) auto
  qed
qed

definition fs_taken :: fs where
  "fs_taken = [([], Dir (rw 0)), ([''d''], Dir (rw 0)),
               ([''d'', ''a.txt''], File (rw 0) ''x''),
               ([''d'', ''a (1).txt''], File (rw 0) ''x'')]"

text \<open>
  C2. For a path that does not exist, \<open>unique_destination_path\<close> returns the path
  itself. For a path that exists it returns, for some \<open>k \<ge> 1\<close>, the candidate
  \<open>stem (k)suffix\<close> in the same parent directory; that candidate does not exist, and
  every candidate with a smaller number from 1 on exists. So when the path and its
  candidate 1 exist and candidate 2 does not, the result is candidate 2.
\<close>

theorem unique_destination_path_first_free:
  "(\<not> path_exists fs P \<longrightarrow> unique_destination_path fs P = P)
   \<and> (path_exists fs P \<longrightarrow>
        (\<exists>k\<ge>1. unique_destination_path fs P
                  = path_parent P @ [path_stem P @ '' ('' @ dec k @ '')'' @ path_suffix P]
              \<and> \<not> path_exists fs (unique_destination_path fs P)
              \<and> (\<forall>j. 1 \<le> j \<and> j < k \<longrightarrow>
                     path_exists fs
                       (path_parent P @ [path_stem P @ '' ('' @ dec j @ '')'' @ path_suffix P]))))
   \<and> (path_exists fs P
        \<and> path_exists fs (path_parent P @ [path_stem P @ '' ('' @ dec 1 @ '')'' @ path_suffix P])
        \<and> \<not> path_exists fs (path_parent P @ [path_stem P @ '' ('' @ dec 2 @ '')'' @ path_suffix P])
        \<longrightarrow> unique_destination_path fs P
              = path_parent P @ [path_stem P @ '' ('' @ dec 2 @ '')'' @ path_suffix P])"
proof (intro conjI impI)
  assume "\<not> path_exists fs P"
  then show "unique_destination_path fs P = P"
    by (simp add: unique_destination_path_def)
next
  assume ex: "path_exists fs P"
  from probe_result[of 1 fs "path_parent P" "path_stem P" "path_suffix P"]
  obtain k where k: "1 \<le> k"
    "probe fs (path_parent P) (path_stem P) (path_suffix P) 1
       = candidate (path_parent P) (path_stem P) (path_suffix P) k"
    "\<not> path_exists fs (candidate (path_parent P) (path_stem P) (path_suffix P) k)"
    "\<forall>j. 1 \<le> j \<and> j < k \<longrightarrow>
       path_exists fs (candidate (path_parent P) (path_stem P) (path_suffix P) j)"
    by blast
  from ex k(2) have r: "unique_destination_path fs P
      = candidate (path_parent P) (path_stem P) (path_suffix P) k"
    by (simp add: unique_destination_path_def)
  show "\<exists>k\<ge>1. unique_destination_path fs P
                  = path_parent P @ [path_stem P @ '' ('' @ dec k @ '')'' @ path_suffix P]
              \<and> \<not> path_exists fs (unique_destination_path fs P)
              \<and> (\<forall>j. 1 \<le> j \<and> j < k \<longrightarrow>
                     path_exists fs
                       (path_parent P @ [path_stem P @ '' ('' @ dec j @ '')'' @ path_suffix P]))"
    using k(1,3,4) r unfolding candidate_def by (intro exI[of _ k]) simp
next
  assume h: "path_exists fs P
        \<and> path_exists fs (path_parent P @ [path_stem P @ '' ('' @ dec 1 @ '')'' @ path_suffix P])
        \<and> \<not> path_exists fs (path_parent P @ [path_stem P @ '' ('' @ dec 2 @ '')'' @ path_suffix P])"
  have "probe fs (path_parent P) (path_stem P) (path_suffix P) 1
          = candidate (path_parent P) (path_stem P) (path_suffix P) 2"
  proof (rule probe_first)
    show "\<not> path_exists fs (candidate (path_parent P) (path_stem P) (path_suffix P) 2)"
      using h by (simp add: candidate_def)
    show "(1::nat) \<le> 2" by simp
    fix j :: nat assume "1 \<le> j" "j < 2"
    then have "j = 1" by simp
    with h show "path_exists fs (candidate (path_parent P) (path_stem P) (path_suffix P) j)"
      by (simp add: candidate_def)
  qed
  with h show "unique_destination_path fs P
              = path_parent P @ [path_stem P @ '' ('' @ dec 2 @ '')'' @ path_suffix P]"
    by (simp add: unique_destination_path_def candidate_def)
qed

theorem unique_destination_path_first_free_witness:
  "path_exists fs_taken [''d'', ''a.txt'']
   \<and> path_exists fs_taken [''d'', ''a (1).txt'']
   \<and> \<not> path_exists fs_taken [''d'', ''a (2).txt'']
   \<and> unique_destination_path fs_taken [''d'', ''a.txt''] = [''d'', ''a (2).txt'']
   \<and> \<not> path_exists fs_taken [''d'', ''n.txt'']
   \<and> unique_destination_path fs_taken [''d'', ''n.txt''] = [''d'', ''n.txt'']"
proof -
  have c1: "path_parent [''d'', ''a.txt''] @ [path_stem [''d'', ''a.txt''] @ '' ('' @ dec 1 @ '')''
              @ path_suffix [''d'', ''a.txt'']] = [''d'', ''a (1).txt'']"
    by code_simp
  have c2: "path_parent [''d'', ''a.txt''] @ [path_stem [''d'', ''a.txt''] @ '' ('' @ dec 2 @ '')''
              @ path_suffix [''d'', ''a.txt'']] = [''d'', ''a (2).txt'']"
    by code_simp
  have e0: "path_exists fs_taken [''d'', ''a.txt'']" by code_simp
  have e1: "path_exists fs_taken [''d'', ''a (1).txt'']" by code_simp
  have e2: "\<not> path_exists fs_taken [''d'', ''a (2).txt'']" by code_simp
  have n: "\<not> path_exists fs_taken [''d'', ''n.txt'']" by code_simp
  from unique_destination_path_first_free[of fs_taken "[''d'', ''a.txt'']"] e0 e1 e2
  have r1: "unique_destination_path fs_taken [''d'', ''a.txt''] = [''d'', ''a (2).txt'']"
    unfolding c1 c2 by blast
  from unique_destination_path_first_free[of fs_taken "[''d'', ''n.txt'']"] n
  have r2: "unique_destination_path fs_taken [''d'', ''n.txt''] = [''d'', ''n.txt'']"
    by blast
  from e0 e1 e2 n r1 r2 show ?thesis by blast
qed

section \<open>The scanner in recursive mode\<close>

lemma os_walk_roots:
  "t \<in> set (os_walk fs keep root) \<Longrightarrow> \<exists>rel. fst t = root @ rel \<and> (\<forall>d\<in>set rel. keep d)"
proof (induction fs keep root arbitrary: t rule: os_walk.induct)
  case (1 fs keep root)
  show ?case
  proof (cases "os_listdir fs root")
    case (Inl e)
    with "1.prems" show ?thesis by (subst (asm) os_walk.simps) simp
  next
    case (Inr names)
    let ?dirs = "filter keep (filter (\<lambda>n. is_dir fs (root @ [n])) names)"
    from "1.prems" Inr
    consider "fst t = root"
      | d where "d \<in> set ?dirs" "t \<in> set (os_walk fs keep (root @ [d]))"
      by (subst (asm) os_walk.simps) auto
    then show ?thesis
    proof cases
      case 1
      then show ?thesis by (intro exI[of _ "[]"]) simp
    next
      case (2 d)
      from "1.IH"[OF Inr 2(1) 2(2)] obtain rel where
        rel: "fst t = (root @ [d]) @ rel" "\<forall>x\<in>set rel. keep x" by blast
      from 2(1) have "keep d" by simp
      with rel show ?thesis by (intro exI[of _ "d # rel"]) simp
    qed
  qed
qed

lemma gather_entry_mem:
  "p \<in> set (gather_entry base r n) \<Longrightarrow>
     p = r @ [n] \<and> (\<forall>rel. relative_to p base = Inr rel \<longrightarrow> \<not> already_sorted rel)"
  by (auto simp: gather_entry_def Let_def split: sum.splits if_splits)

lemma gathered_mem:
  "p \<in> set (concat (map (gather_root base) ts)) \<Longrightarrow>
     \<exists>r ds fl n. (r, ds, fl) \<in> set ts \<and> n \<in> set fl \<and> p \<in> set (gather_entry base r n)"
  by (fastforce simp: gather_root_def split: prod.splits)

lemma ascii_isdigit: "s \<noteq> [] \<Longrightarrow> list_all ascii_digit s \<Longrightarrow> str_isdigit s"
  by (auto simp: str_isdigit_def char_isdigit_def list_all_iff)

definition fs_sorted :: fs where
  "fs_sorted = [([], Dir (rw 0)), ([''base''], Dir (rw 0)),
                ([''base'', ''file1.txt''], File (rw 1673780400) ''1''),
                ([''base'', ''2020''], Dir (rw 0)),
                ([''base'', ''2020'', ''01''], Dir (rw 0)),
                ([''base'', ''2020'', ''01'', ''already.txt''], File (rw 1673780400) ''a''),
                ([''other''], Dir (rw 0)),
                ([''other'', ''x''], File (rw 0) ''x'')]"

definition fs_backup_base :: fs where
  "fs_backup_base = [([], Dir (rw 0)), ([''FolderChronicle Backup 1''], Dir (rw 0)),
                     ([''FolderChronicle Backup 1'', ''a.txt''], File (rw 0) ''a''),
                     ([''FolderChronicle Backup 1'', ''FolderChronicle Backup 2''], Dir (rw 0)),
                     ([''FolderChronicle Backup 1'', ''FolderChronicle Backup 2'', ''b.txt''], File (rw 0) ''b'')]"


text \<open>
  C3. In recursive mode \<open>gather_files\<close> returns no file whose path relative to the
  base directory has at least 3 segments, the first made of exactly 4 ASCII digits and
  the second of exactly 2 ASCII digits. And whatever triples the walk yields, a name of
  \<open>files_\<close> whose path is not relative to the base directory, and is a regular
  file, is in the list returned.
\<close>

theorem gather_files_skips_sorted:
  "(gather_files fs base True = Inr files \<and> p \<in> set files \<longrightarrow>
      \<not> (\<exists>rel. relative_to p base = Inr rel \<and> length rel \<ge> 3
              \<and> length (rel ! 0) = 4 \<and> list_all ascii_digit (rel ! 0)
              \<and> length (rel ! 1) = 2 \<and> list_all ascii_digit (rel ! 1)))
   \<and> ((r, ds, fl) \<in> set ts \<and> n \<in> set fl \<and> relative_to (r @ [n]) base = Inl e
        \<and> is_file fs (r @ [n]) \<longrightarrow>
        r @ [n] \<in> set (filter (is_file fs) (concat (map (gather_root base) ts))))"
proof (intro conjI impI)
  assume h: "gather_files fs base True = Inr files \<and> p \<in> set files"
  then have "p \<in> set (concat (map (gather_root base) (os_walk fs keep_dir base)))"
    by (auto simp: gather_files_def)
  then obtain r ds fl n where "p \<in> set (gather_entry base r n)"
    using gathered_mem by blast
  then have ns: "\<forall>rel. relative_to p base = Inr rel \<longrightarrow> \<not> already_sorted rel"
    using gather_entry_mem by blast
  show "\<not> (\<exists>rel. relative_to p base = Inr rel \<and> length rel \<ge> 3
              \<and> length (rel ! 0) = 4 \<and> list_all ascii_digit (rel ! 0)
              \<and> length (rel ! 1) = 2 \<and> list_all ascii_digit (rel ! 1))"
  proof
    assume "\<exists>rel. relative_to p base = Inr rel \<and> length rel \<ge> 3
              \<and> length (rel ! 0) = 4 \<and> list_all ascii_digit (rel ! 0)
              \<and> length (rel ! 1) = 2 \<and> list_all ascii_digit (rel ! 1)"
    then obtain rel where rel: "relative_to p base = Inr rel" "length rel \<ge> 3"
      "length (rel ! 0) = 4" "list_all ascii_digit (rel ! 0)"
      "length (rel ! 1) = 2" "list_all ascii_digit (rel ! 1)" by blast
    from rel(3,4) have "str_isdigit (rel ! 0)" by (intro ascii_isdigit) auto
    moreover from rel(5,6) have "str_isdigit (rel ! 1)" by (intro ascii_isdigit) auto
    ultimately have "already_sorted rel" using rel(2,3,5) by (simp add: already_sorted_def)
    with ns rel(1) show False by blast
  qed
next
  assume h: "(r, ds, fl) \<in> set ts \<and> n \<in> set fl \<and> relative_to (r @ [n]) base = Inl e
        \<and> is_file fs (r @ [n])"
  then have "gather_entry base r n = [r @ [n]]" by (simp add: gather_entry_def)
  with h have "r @ [n] \<in> set (gather_root base (r, ds, fl))"
    by (auto simp: gather_root_def intro!: bexI[of _ n])
  with h show "r @ [n] \<in> set (filter (is_file fs) (concat (map (gather_root base) ts)))"
    by auto
qed

theorem gather_files_skips_sorted_witness:
  "gather_files fs_sorted [''base''] True = Inr [[''base'', ''file1.txt'']]
   \<and> [''base'', ''file1.txt''] \<in> set [[''base'', ''file1.txt'']]
   \<and> \<not> (\<exists>rel. relative_to [''base'', ''file1.txt''] [''base''] = Inr rel \<and> length rel \<ge> 3
              \<and> length (rel ! 0) = 4 \<and> list_all ascii_digit (rel ! 0)
              \<and> length (rel ! 1) = 2 \<and> list_all ascii_digit (rel ! 1))
   \<and> ([''other''], [], [''x'']) \<in> set [([''other''], [], [''x''])]
   \<and> ''x'' \<in> set [''x'']
   \<and> relative_to ([''other''] @ [''x'']) [''base'']
        = Inl (Exn ValueError ''/other/x is not in the subpath of /base'')
   \<and> is_file fs_sorted ([''other''] @ [''x''])
   \<and> [''other''] @ [''x'']
        \<in> set (filter (is_file fs_sorted)
                 (concat (map (gather_root [''base'']) [([''other''], [], [''x''])])))"
proof -
  have g: "gather_files fs_sorted [''base''] True = Inr [[''base'', ''file1.txt'']]"
    by code_simp
  have m: "[''base'', ''file1.txt''] \<in> set [[''base'', ''file1.txt'']]" by simp
  have t: "([''other''], [], [''x'']) \<in> set [([''other''], [], [''x''])]" by simp
  have x: "''x'' \<in> set [''x'']" by simp
  have v: "relative_to ([''other''] @ [''x'']) [''base'']
        = Inl (Exn ValueError ''/other/x is not in the subpath of /base'')" by code_simp
  have f: "is_file fs_sorted ([''other''] @ [''x''])" by code_simp
  note th = gather_files_skips_sorted[of fs_sorted "[''base'']" "[[''base'', ''file1.txt'']]"
      "[''base'', ''file1.txt'']" "[''other'']" "[]" "[''x'']" "[([''other''], [], [''x''])]" "''x''"
      "Exn ValueError ''/other/x is not in the subpath of /base''"]
  have a: "\<not> (\<exists>rel. relative_to [''base'', ''file1.txt''] [''base''] = Inr rel \<and> length rel \<ge> 3
              \<and> length (rel ! 0) = 4 \<and> list_all ascii_digit (rel ! 0)
              \<and> length (rel ! 1) = 2 \<and> list_all ascii_digit (rel ! 1))"
    by (rule th[THEN conjunct1, rule_format, OF conjI[OF g m]])
  have b: "[''other''] @ [''x'']
        \<in> set (filter (is_file fs_sorted)
                 (concat (map (gather_root [''base'']) [([''other''], [], [''x''])])))"
    by (rule th[THEN conjunct2, rule_format, OF conjI[OF t conjI[OF x conjI[OF v f]]]])
  show ?thesis
    by (intro conjI) (rule g m a t x v f b)+
qed

definition fs_with_backup :: fs where
  "fs_with_backup = [([], Dir (rw 0)), ([''base''], Dir (rw 0)),
                     ([''base'', ''a.txt''], File (rw 1673780400) ''a''),
                     ([''base'', ''FolderChronicle Backup 2023-01-01 00-00-00''], Dir (rw 0)),
                     ([''base'', ''FolderChronicle Backup 2023-01-01 00-00-00'', ''old.txt''], File (rw 0) ''o''),
                     ([''base'', ''sub''], Dir (rw 0)),
                     ([''base'', ''sub'', ''c.txt''], File (rw 1673780400) ''c'')]"


text \<open>
  C4, as amended. In recursive mode every directory the walk lists is the base
  directory followed by segments none of which starts with \<open>FolderChronicle Backup\<close>,
  and every file returned lies in such a directory. The base directory itself is walked
  whatever its name.
\<close>

theorem gather_files_prunes_backup_below_base:
  "((r, ds, fl) \<in> set (os_walk fs keep_dir base) \<longrightarrow>
      (\<exists>rel. r = base @ rel \<and> list_all (\<lambda>d. \<not> prefix backup_prefix d) rel))
   \<and> (gather_files fs base True = Inr files \<and> p \<in> set files \<longrightarrow>
        (\<exists>rel n. p = base @ rel @ [n] \<and> list_all (\<lambda>d. \<not> prefix backup_prefix d) rel))"
proof (intro conjI impI)
  assume "(r, ds, fl) \<in> set (os_walk fs keep_dir base)"
  from os_walk_roots[OF this]
  show "\<exists>rel. r = base @ rel \<and> list_all (\<lambda>d. \<not> prefix backup_prefix d) rel"
    by (auto simp: keep_dir_def list_all_iff)
next
  assume "gather_files fs base True = Inr files \<and> p \<in> set files"
  then have "p \<in> set (concat (map (gather_root base) (os_walk fs keep_dir base)))"
    by (auto simp: gather_files_def)
  then obtain r ds fl n where t: "(r, ds, fl) \<in> set (os_walk fs keep_dir base)"
    and p: "p \<in> set (gather_entry base r n)"
    using gathered_mem by blast
  from os_walk_roots[OF t] obtain rel where
    rel: "r = base @ rel" "\<forall>d\<in>set rel. keep_dir d" by auto
  from p have "p = r @ [n]" using gather_entry_mem by blast
  with rel show "\<exists>rel n. p = base @ rel @ [n] \<and> list_all (\<lambda>d. \<not> prefix backup_prefix d) rel"
    by (intro exI[of _ rel] exI[of _ n]) (simp add: keep_dir_def list_all_iff)
qed

theorem gather_files_prunes_backup_below_base_witness:
  "([''base'', ''sub''], [], [''c.txt'']) \<in> set (os_walk fs_with_backup keep_dir [''base''])
   \<and> (\<exists>rel. [''base'', ''sub''] = [''base''] @ rel \<and> list_all (\<lambda>d. \<not> prefix backup_prefix d) rel)
   \<and> gather_files fs_with_backup [''base''] True
        = Inr [[''base'', ''a.txt''], [''base'', ''sub'', ''c.txt'']]
   \<and> [''base'', ''sub'', ''c.txt''] \<in> set [[''base'', ''a.txt''], [''base'', ''sub'', ''c.txt'']]
   \<and> (\<exists>rel n. [''base'', ''sub'', ''c.txt''] = [''base''] @ rel @ [n]
          \<and> list_all (\<lambda>d. \<not> prefix backup_prefix d) rel)"
proof -
  have w: "([''base'', ''sub''], [], [''c.txt'']) \<in> set (os_walk fs_with_backup keep_dir [''base''])"
    by code_simp
  have g: "gather_files fs_with_backup [''base''] True
        = Inr [[''base'', ''a.txt''], [''base'', ''sub'', ''c.txt'']]"
    by code_simp
  have m: "[''base'', ''sub'', ''c.txt''] \<in> set [[''base'', ''a.txt''], [''base'', ''sub'', ''c.txt'']]"
    by simp
  note th = gather_files_prunes_backup_below_base[of "[''base'', ''sub'']" "[]" "[''c.txt'']"
      fs_with_backup "[''base'']" "[[''base'', ''a.txt''], [''base'', ''sub'', ''c.txt'']]"
      "[''base'', ''sub'', ''c.txt'']"]
  have a: "\<exists>rel. [''base'', ''sub''] = [''base''] @ rel \<and> list_all (\<lambda>d. \<not> prefix backup_prefix d) rel"
    by (rule th[THEN conjunct1, rule_format, OF w])
  have b: "\<exists>rel n. [''base'', ''sub'', ''c.txt''] = [''base''] @ rel @ [n]
          \<and> list_all (\<lambda>d. \<not> prefix backup_prefix d) rel"
    by (rule th[THEN conjunct2, rule_format, OF conjI[OF g m]])
  show ?thesis
    by (intro conjI) (rule w a g m b)+
qed

text \<open>
  C4 as stated fails: a base directory that is itself named with the prefix is walked,
  and the file in it is returned (the backup directory below it is pruned).
\<close>

theorem gather_files_walks_backup_named_base:
  "is_dir fs_backup_base [''FolderChronicle Backup 1'']
   \<and> prefix backup_prefix ''FolderChronicle Backup 1''
   \<and> ([''FolderChronicle Backup 1''], [''FolderChronicle Backup 2''], [''a.txt''])
        \<in> set (os_walk fs_backup_base keep_dir [''FolderChronicle Backup 1''])
   \<and> gather_files fs_backup_base [''FolderChronicle Backup 1''] True
        = Inr [[''FolderChronicle Backup 1'', ''a.txt'']]"
  by code_simp

section \<open>Counting and isolating failures\<close>

text \<open>A file that cannot be read beside one that can; a base directory that cannot
  be listed.\<close>

definition fs_locked :: fs where
  "fs_locked = [([], Dir (rw 0)), ([''base''], Dir (rw 0)),
                ([''base'', ''a.txt''], File ((rw 1673780400)\<lparr>readable := False\<rparr>) ''a''),
                ([''base'', ''b.txt''], File (rw 1673780400) ''b'')]"

definition fs_unreadable :: fs where
  "fs_unreadable = [([], Dir (rw 0)), ([''base''], Dir ((rw 0)\<lparr>readable := False\<rparr>)),
                    ([''base'', ''a.txt''], File (rw 1673780400) ''a'')]"


lemma sort_loop_counts:
  "sort_loop ev options files (fs, moved, errors, logs) = (fs2, moved2, errors2, logs2) \<Longrightarrow>
   moved2 + errors2 = moved + errors + length files"
proof (induction files arbitrary: fs moved errors logs)
  case Nil
  then show ?case by simp
next
  case (Cons src rest)
  obtain fs' r where step: "relocate_one ev options fs src = (fs', r)" by (cases "relocate_one ev options fs src")
  show ?case
  proof (cases r)
    case (Inl e)
    with step Cons.prems have
      "sort_loop ev options rest (fs', moved, errors + 1,
         logs @ [''Error moving '' @ path_name src @ '': '' @ format_exception e])
       = (fs2, moved2, errors2, logs2)" by simp
    from Cons.IH[OF this] show ?thesis by simp
  next
    case (Inr t)
    obtain dest year month where t: "t = (dest, year, month)" by (cases t)
    with Inr step Cons.prems have
      "sort_loop ev options rest (fs', moved + 1, errors,
         logs @ [(if copy_no_backup options then ''Copied: '' else ''Moved: '')
                     @ path_name src @ '' -> '' @ year @ ''/'' @ month @ ''/''])
       = (fs2, moved2, errors2, logs2)" by simp
    from Cons.IH[OF this] show ?thesis by simp
  qed
qed

text \<open>
  C7, as amended. When the scan succeeds, \<open>sort_files\<close> returns counts whose sum
  is the number of candidate files plus the number of errors of the backup stage; with
  copy-without-backup, or no candidate, the sum is the number of candidate files.
\<close>

theorem sort_files_counts:
  "gather_files fs (base_dir options) (include_subdirs options) = Inr files \<longrightarrow>
   (\<exists>fs2 moved errors logs.
      sort_files ev options fs = (fs2, Inr (moved, errors, logs))
      \<and> moved + errors
          = length files
            + (if files = [] \<or> copy_no_backup options then 0
               else fst (snd (backup_files ev fs files (base_dir options)))))"
proof
  assume g: "gather_files fs (base_dir options) (include_subdirs options) = Inr files"
  show "\<exists>fs2 moved errors logs.
      sort_files ev options fs = (fs2, Inr (moved, errors, logs))
      \<and> moved + errors
          = length files
            + (if files = [] \<or> copy_no_backup options then 0
               else fst (snd (backup_files ev fs files (base_dir options))))"
  proof (cases "files = []")
    case True
    with g show ?thesis by (simp add: sort_files_def)
  next
    case False
    obtain fs1 b_errors b_logs where b:
      "(if \<not> copy_no_backup options then backup_files ev fs files (base_dir options)
        else (fs, 0, [])) = (fs1, b_errors, b_logs)"
      by (metis prod_cases3)
    obtain fs2 moved errors logs where l:
      "sort_loop ev options files (fs1, 0, b_errors, b_logs) = (fs2, moved, errors, logs)"
      by (metis prod_cases4)
    from g False b l have r: "sort_files ev options fs = (fs2, Inr (moved, errors, logs))"
      by (simp add: sort_files_def)
    from sort_loop_counts[OF l] have "moved + errors = b_errors + length files" by simp
    moreover from b have "b_errors = (if copy_no_backup options then 0
               else fst (snd (backup_files ev fs files (base_dir options))))"
      by (auto split: if_splits)
    ultimately show ?thesis using r False by auto
  qed
qed


theorem sort_files_counts_witness:
  "gather_files fs_locked (base_dir (opts False False False)) (include_subdirs (opts False False False))
     = Inr [[''base'', ''a.txt''], [''base'', ''b.txt'']]
   \<and> (\<exists>fs2 moved errors logs.
         sort_files ev0 (opts False False False) fs_locked = (fs2, Inr (moved, errors, logs))
         \<and> moved + errors
             = length [[''base'', ''a.txt''], [''base'', ''b.txt'']]
               + (if [[''base'', ''a.txt''], [''base'', ''b.txt'']] = []
                     \<or> copy_no_backup (opts False False False) then 0
                  else fst (snd (backup_files ev0 fs_locked [[''base'', ''a.txt''], [''base'', ''b.txt'']]
                                   (base_dir (opts False False False))))))
   \<and> fst (snd (backup_files ev0 fs_locked [[''base'', ''a.txt''], [''base'', ''b.txt'']]
                  (base_dir (opts False False False)))) = 1"
proof -
  have g: "gather_files fs_locked (base_dir (opts False False False))
             (include_subdirs (opts False False False))
           = Inr [[''base'', ''a.txt''], [''base'', ''b.txt'']]"
    by code_simp
  have b: "fst (snd (backup_files ev0 fs_locked [[''base'', ''a.txt''], [''base'', ''b.txt'']]
                  (base_dir (opts False False False)))) = 1"
    by code_simp
  show ?thesis
    by (intro conjI) (rule g sort_files_counts[rule_format, OF g] b)+
qed


text \<open>
  C7 as stated fails: the backup of an unreadable file fails and is counted in
  \<open>errors\<close>, the move of the same file succeeds, and the counts for 2 candidate
  files sum to 3.
\<close>

theorem sort_files_counts_backup_errors:
  "gather_files fs_locked [''base''] False = Inr [[''base'', ''a.txt''], [''base'', ''b.txt'']]
   \<and> snd (sort_files ev0 (opts False False False) fs_locked)
       = Inr (2, 1,
              [''Backup error /base/a.txt: '' @ format_exception (os_error PermissionError [''base'', ''a.txt'']),
               ''Moved: a.txt -> 2023/01/'', ''Moved: b.txt -> 2023/01/''])"
  by code_simp


section \<open>A base directory that cannot be read\<close>

text \<open>
  C5. The base directory cannot be listed. In recursive mode \<open>sort_files\<close> returns
  0 relocated, 0 failed and the log \<open>["No files found."]\<close>, the outcome of an empty
  directory, where the claim wants the run reported as failed; in non-recursive mode the
  error of the listing leaves \<open>sort_files\<close>. In both the filesystem is untouched.
\<close>

theorem sort_files_recursive_scan_failure:
  "os_listdir fs_unreadable [''base''] = Inl (os_error PermissionError [''base''])
   \<and> sort_files ev0 (opts True False False) fs_unreadable
       = (fs_unreadable, Inr (0, 0, [''No files found.'']))
   \<and> sort_files ev0 (opts False False False) fs_unreadable
       = (fs_unreadable, Inl (os_error PermissionError [''base'']))"
  by code_simp

section \<open>What the operations change\<close>

lemma is_file_iff: "is_file fs p \<longleftrightarrow> (\<exists>m c. map_of fs p = Some (File m c))"
  by (auto simp: is_file_def split: option.splits node.splits)

lemma is_dir_iff: "is_dir fs p \<longleftrightarrow> (\<exists>m. map_of fs p = Some (Dir m))"
  by (auto simp: is_dir_def split: option.splits node.splits)

lemma map_of_snoc:
  "map_of fs p = None \<Longrightarrow> map_of (fs @ [(p, v)]) = (map_of fs)(p \<mapsto> v)"
  by (rule ext) (auto simp: map_add_def split: option.splits)

text \<open>What a step may do to the paths it does not name: leave them, or make a
  directory where nothing was.\<close>

definition grows_dirs :: "fs \<Rightarrow> fs \<Rightarrow> bool" where
  "grows_dirs fs fs' =
     (\<forall>q. map_of fs' q = map_of fs q \<or> (map_of fs q = None \<and> is_dir fs' q))"

lemma grows_dirs_refl: "grows_dirs fs fs"
  by (simp add: grows_dirs_def)

lemma grows_dirs_trans: "grows_dirs a b \<Longrightarrow> grows_dirs b c \<Longrightarrow> grows_dirs a c"
  unfolding grows_dirs_def is_dir_iff by (metis option.distinct(1))

lemma os_mkdir_Inr:
  "os_mkdir ev fs p = Inr fs' \<Longrightarrow> map_of fs p = None \<and> (\<exists>m. map_of fs' = (map_of fs)(p \<mapsto> Dir m))"
proof -
  assume a: "os_mkdir ev fs p = Inr fs'"
  then have n: "map_of fs p = None"
    by (auto simp: os_mkdir_def path_exists_def split: if_splits)
  from a obtain m where "fs' = fs @ [(p, Dir m)]"
    by (auto simp: os_mkdir_def split: if_splits option.splits node.splits)
  with map_of_snoc[OF n] have "map_of fs' = (map_of fs)(p \<mapsto> Dir m)" by simp
  with n show ?thesis by blast
qed

lemma os_mkdir_grows: "os_mkdir ev fs p = Inr fs' \<Longrightarrow> grows_dirs fs fs' \<and> is_dir fs' p"
  by (drule os_mkdir_Inr) (auto simp: grows_dirs_def is_dir_iff split: if_splits)

lemma mkdir_exist_ok_grows:
  "mkdir_exist_ok ev fs p = Inr fs' \<Longrightarrow> grows_dirs fs fs' \<and> is_dir fs' p"
  by (auto simp: mkdir_exist_ok_def grows_dirs_refl split: sum.splits if_splits dest: os_mkdir_grows)

lemma path_mkdir_grows:
  "path_mkdir ev fs p = (fs', r) \<Longrightarrow> grows_dirs fs fs' \<and> (r = Inr () \<longrightarrow> is_dir fs' p)"
proof (induction ev fs p arbitrary: fs' r rule: path_mkdir.induct)
  case (1 ev fs p)
  show ?case
  proof (cases "os_mkdir ev fs p")
    case (Inr fs1)
    with "1.prems" have "fs' = fs1" "r = Inr ()" by (simp_all add: path_mkdir.simps)
    with Inr show ?thesis by (auto dest: os_mkdir_grows)
  next
    case (Inl e)
    show ?thesis
    proof (cases "kind_of e = FileNotFoundError")
      case False
      with Inl "1.prems" show ?thesis
        by (auto simp: path_mkdir.simps grows_dirs_refl split: if_splits)
    next
      case True
      show ?thesis
      proof (cases "p = []")
        case True
        with Inl \<open>kind_of e = FileNotFoundError\<close> "1.prems" show ?thesis
          by (auto simp: path_mkdir.simps grows_dirs_refl)
      next
        case False
        obtain fs1 r1 where rec: "path_mkdir ev fs (butlast p) = (fs1, r1)"
          by (cases "path_mkdir ev fs (butlast p)")
        from "1.IH"[OF Inl True False rec] have g1: "grows_dirs fs fs1" by simp
        show ?thesis
        proof (cases r1)
          case (Inl e1)
          with rec \<open>os_mkdir ev fs p = Inl e\<close> True False "1.prems"
          have "fs' = fs1" "r = Inl e1" by (simp_all add: path_mkdir.simps)
          with g1 show ?thesis by simp
        next
          case (Inr u)
          show ?thesis
          proof (cases "mkdir_exist_ok ev fs1 p")
            case (Inl e2)
            with Inr rec \<open>os_mkdir ev fs p = Inl e\<close> True False "1.prems"
            have "fs' = fs1" "r = Inl e2" by (simp_all add: path_mkdir.simps)
            with g1 show ?thesis by simp
          next
            case (Inr fs2)
            with \<open>r1 = Inr u\<close> rec \<open>os_mkdir ev fs p = Inl e\<close> True False "1.prems"
            have "fs' = fs2" "r = Inr ()" by (simp_all add: path_mkdir.simps)
            with mkdir_exist_ok_grows[OF Inr] g1 show ?thesis
              by (auto intro: grows_dirs_trans)
          qed
        qed
      qed
    qed
  qed
qed

lemma shutil_copy2_Inr:
  "shutil_copy2 ev fs src dst = Inr (fs', d) \<Longrightarrow>
     d = (if is_dir fs dst then dst @ name_parts src else dst) \<and> \<not> is_dir fs d \<and>
     (\<exists>m c. map_of fs src = Some (File m c) \<and> map_of fs' = (map_of fs)(d \<mapsto> File (m\<lparr>st_ctime := now ev\<rparr>) c))"
  unfolding shutil_copy2_def Let_def
  by (auto simp: is_dir_iff update_conv' split: if_splits option.splits node.splits)

lemma os_unlink_Inr:
  "os_unlink fs p = Inr fs' \<Longrightarrow> map_of fs' = (map_of fs)(p := None)"
  by (auto simp: os_unlink_def delete_conv' split: if_splits option.splits node.splits)

lemma os_rename_file_Inr:
  "os_rename fs src dst = Inr fs' \<Longrightarrow> map_of fs src = Some (File m c) \<Longrightarrow> src \<noteq> dst \<Longrightarrow>
     map_of fs' = (map_of fs)(src := None, dst \<mapsto> File m c)"
  by (auto simp: os_rename_def update_conv' delete_conv' split: if_splits option.splits node.splits)

lemma shutil_move_file:
  assumes "shutil_move ev fs src dst = (fs', r)" "map_of fs src = Some (File m c)"
    "map_of fs dst = None"
  shows "(\<forall>d. r = Inr d \<longrightarrow> d = dst \<and> (\<exists>m'. map_of fs' = (map_of fs)(src := None, dst \<mapsto> File m' c)))
       \<and> (\<forall>e. r = Inl e \<longrightarrow> fs' = fs \<or> (\<exists>m'. map_of fs' = (map_of fs)(dst \<mapsto> File m' c)))"
proof -
  from assms(3) have nd: "\<not> is_dir fs dst" by (simp add: is_dir_iff)
  from assms(2,3) have ne: "src \<noteq> dst" by auto
  from assms(2) have nsd: "\<not> is_dir fs src" by (simp add: is_dir_iff)
  show ?thesis
  proof (cases "os_rename fs src dst")
    case (Inr fs1)
    with assms(1) nd have "fs' = fs1" "r = Inr dst" by (simp_all add: shutil_move_def)
    with os_rename_file_Inr[OF Inr assms(2) ne] show ?thesis by auto
  next
    case (Inl e)
    show ?thesis
    proof (cases "shutil_copy2 ev fs src dst")
      case e1: (Inl e1)
      with Inl assms(1) nd nsd have "fs' = fs" "r = Inl e1" by (simp_all add: shutil_move_def)
      then show ?thesis by simp
    next
      case (Inr t)
      obtain fs1 d where t: "t = (fs1, d)" by (cases t)
      from shutil_copy2_Inr[OF Inr[unfolded t]] nd assms(2)
      have c: "map_of fs1 = (map_of fs)(dst \<mapsto> File (m\<lparr>st_ctime := now ev\<rparr>) c)" by auto
      show ?thesis
      proof (cases "os_unlink fs1 src")
        case e2: (Inl e2)
        with Inl Inr t assms(1) nd nsd have "fs' = fs1" "r = Inl e2" by (simp_all add: shutil_move_def)
        with c show ?thesis by auto
      next
        case u: (Inr fs2)
        with Inl Inr t assms(1) nd nsd have "fs' = fs2" "r = Inr dst" by (simp_all add: shutil_move_def)
        moreover from os_unlink_Inr[OF u] c ne
        have "map_of fs2 = (map_of fs)(src := None, dst \<mapsto> File (m\<lparr>st_ctime := now ev\<rparr>) c)"
          by (auto simp: fun_upd_twist)
        ultimately show ?thesis by auto
      qed
    qed
  qed
qed

lemma digit_char_ascii: "d < 10 \<Longrightarrow> ascii_digit (digit_char d)"
  by (simp add: ascii_digit_def digit_char_def)

lemma dec_ascii: "list_all ascii_digit (dec n)"
proof (induction n rule: dec.induct)
  case (1 n)
  show ?case
  proof (cases "n < 10")
    case True
    then show ?thesis by (subst dec.simps) (simp add: digit_char_ascii)
  next
    case False
    with "1.IH" show ?thesis by (subst dec.simps) (simp add: digit_char_ascii)
  qed
qed

lemma dec_length: "0 < k \<Longrightarrow> n < 10 ^ k \<Longrightarrow> length (dec n) \<le> k"
proof (induction k arbitrary: n)
  case 0
  then show ?case by simp
next
  case (Suc k)
  show ?case
  proof (cases "n < 10")
    case True
    then show ?thesis by (subst dec.simps) simp
  next
    case False
    with Suc.prems have k: "0 < k" by (cases k) auto
    from Suc.prems have "n div 10 < 10 ^ k" by (simp add: less_mult_imp_div_less mult.commute)
    from Suc.IH[OF k this] False show ?thesis by (subst dec.simps) simp
  qed
qed

lemma zero_pad_digits:
  "0 < w \<Longrightarrow> 0 \<le> n \<Longrightarrow> n < 10 ^ w \<Longrightarrow>
     length (zero_pad w n) = w \<and> list_all ascii_digit (zero_pad w n)"
proof -
  assume w: "0 < w" and n: "0 \<le> n" "n < 10 ^ w"
  from n have "nat n < 10 ^ w" by (simp add: nat_less_iff)
  from dec_length[OF w this] have "length (dec (nat n)) \<le> w" .
  moreover have "ascii_digit CHR ''0''" by (simp add: ascii_digit_def)
  ultimately show ?thesis using n dec_ascii[of "nat n"]
    by (auto simp: zero_pad_def list_all_iff)
qed

lemma unique_destination_path_fresh: "\<not> path_exists fs (unique_destination_path fs P)"
proof (cases "path_exists fs P")
  case False
  then show ?thesis by (simp add: unique_destination_path_def)
next
  case True
  with probe_result[of 1 fs "path_parent P" "path_stem P" "path_suffix P"]
  show ?thesis by (auto simp: unique_destination_path_def)
qed

lemma unique_destination_path_shape:
  "unique_destination_path fs P = P
   \<or> (\<exists>k\<ge>1. unique_destination_path fs P
               = path_parent P @ [path_stem P @ '' ('' @ dec k @ '')'' @ path_suffix P])"
proof (cases "path_exists fs P")
  case False
  then show ?thesis by (simp add: unique_destination_path_def)
next
  case True
  with probe_result[of 1 fs "path_parent P" "path_stem P" "path_suffix P"]
  show ?thesis by (auto simp: unique_destination_path_def candidate_def)
qed

lemma grows_dirs_keeps: "grows_dirs fs fs1 \<Longrightarrow> map_of fs p = Some n \<Longrightarrow> map_of fs1 p = Some n"
  unfolding grows_dirs_def by (metis option.distinct(1))

lemma os_stat_file: "map_of fs src = Some (File m0 c0) \<Longrightarrow> os_stat fs src = Inr m0"
  by (simp add: os_stat_def)

lemma fromtimestamp_Inr:
  "fromtimestamp ev ts = Inr (y, m) \<Longrightarrow>
     localtime ev ts = (y, m) \<and> 1 \<le> y \<and> y \<le> 9999 \<and> 1 \<le> m \<and> m \<le> 12"
  by (auto simp: fromtimestamp_def split: prod.splits if_splits)

text \<open>A relocation that got as far as the copy or move.\<close>

lemma relocate_one_unfold:
  assumes "os_stat fs src = Inr st"
    and "fromtimestamp ev (if use_ctime options then st_ctime st else st_mtime st) = Inr (y, m)"
    and "path_mkdir ev fs (base_dir options @ [zero_pad 4 y, zero_pad 2 m]) = (fs1, Inr ())"
  shows "relocate_one ev options fs src =
     (if copy_no_backup options
      then (case shutil_copy2 ev fs1 src
                   (unique_destination_path fs1
                      (base_dir options @ [zero_pad 4 y, zero_pad 2 m] @ name_parts src)) of
              Inl e \<Rightarrow> (fs1, Inl e)
            | Inr (fs2, d) \<Rightarrow>
                (fs2, Inr (unique_destination_path fs1
                             (base_dir options @ [zero_pad 4 y, zero_pad 2 m] @ name_parts src),
                           zero_pad 4 y, zero_pad 2 m)))
      else (case shutil_move ev fs1 src
                   (unique_destination_path fs1
                      (base_dir options @ [zero_pad 4 y, zero_pad 2 m] @ name_parts src)) of
              (fs2, Inl e) \<Rightarrow> (fs2, Inl e)
            | (fs2, Inr d) \<Rightarrow>
                (fs2, Inr (unique_destination_path fs1
                             (base_dir options @ [zero_pad 4 y, zero_pad 2 m] @ name_parts src),
                           zero_pad 4 y, zero_pad 2 m))))"
  using assms by (simp add: relocate_one_def Let_def cong: sum.case_cong prod.case_cong)

lemma relocate_one_success:
  assumes r: "relocate_one ev options fs src = (fs', Inr (dest, year, month))"
    and f: "map_of fs src = Some (File m0 c0)" and ne: "src \<noteq> []"
  shows "\<exists>y m fs1.
           fromtimestamp ev (if use_ctime options then st_ctime m0 else st_mtime m0) = Inr (y, m)
         \<and> year = zero_pad 4 y \<and> month = zero_pad 2 m
         \<and> grows_dirs fs fs1 \<and> is_dir fs1 (base_dir options @ [year, month])
         \<and> dest = unique_destination_path fs1 (base_dir options @ [year, month, last src])
         \<and> map_of fs1 dest = None
         \<and> (\<exists>m'. map_of fs' = (if copy_no_backup options
                                  then (map_of fs1)(dest \<mapsto> File m' c0)
                                  else (map_of fs1)(src := None, dest \<mapsto> File m' c0)))"
proof -
  let ?ts = "if use_ctime options then st_ctime m0 else st_mtime m0"
  note st = os_stat_file[OF f]
  from r st obtain y m where ts: "fromtimestamp ev ?ts = Inr (y, m)"
    by (cases "fromtimestamp ev ?ts") (auto simp: relocate_one_def)
  let ?dd = "base_dir options @ [zero_pad 4 y, zero_pad 2 m]"
  obtain fs1 r1 where mk0: "path_mkdir ev fs ?dd = (fs1, r1)" by (cases "path_mkdir ev fs ?dd")
  from r st ts mk0 have "r1 = Inr ()"
    by (cases r1) (auto simp: relocate_one_def Let_def)
  with mk0 have mk: "path_mkdir ev fs ?dd = (fs1, Inr ())" by simp
  let ?P = "?dd @ name_parts src"
  let ?d = "unique_destination_path fs1 ?P"
  note u = relocate_one_unfold[OF st ts mk]
  from path_mkdir_grows[OF mk] have g: "grows_dirs fs fs1" and d: "is_dir fs1 ?dd" by simp_all
  from grows_dirs_keeps[OF g f] have f1: "map_of fs1 src = Some (File m0 c0)" .
  have fresh: "map_of fs1 ?d = None"
    using unique_destination_path_fresh[of fs1 ?P] by (simp add: path_exists_def)
  then have nd: "\<not> is_dir fs1 ?d" by (simp add: is_dir_iff)
  have P: "?P = base_dir options @ [zero_pad 4 y, zero_pad 2 m, last src]"
    using ne by (simp add: name_parts_def)
  show ?thesis
  proof (cases "copy_no_backup options")
    case True
    with r u obtain fs2 d2 where c: "shutil_copy2 ev fs1 src ?d = Inr (fs2, d2)"
      and e: "fs' = fs2" "dest = ?d" "year = zero_pad 4 y" "month = zero_pad 2 m"
      by (cases "shutil_copy2 ev fs1 src ?d") auto
    from shutil_copy2_Inr[OF c] nd f1
    have "map_of fs2 = (map_of fs1)(?d \<mapsto> File (m0\<lparr>st_ctime := now ev\<rparr>) c0)" by auto
    with True e ts g d fresh P show ?thesis by auto
  next
    case False
    obtain fs2 r2 where c0: "shutil_move ev fs1 src ?d = (fs2, r2)"
      by (cases "shutil_move ev fs1 src ?d")
    from r[unfolded u] False c0
    have eq: "(fs', Inr (dest, year, month))
              = (case r2 of Inl e \<Rightarrow> (fs2, Inl e)
               | Inr d \<Rightarrow> (fs2, Inr (?d, zero_pad 4 y, zero_pad 2 m)))"
      by (cases r2) auto
    then obtain d2 where r2: "r2 = Inr d2" by (cases r2) auto
    from eq r2 have e: "fs' = fs2" "dest = ?d" "year = zero_pad 4 y" "month = zero_pad 2 m"
      by simp_all
    from c0 r2 have c: "shutil_move ev fs1 src ?d = (fs2, Inr d2)" by simp
    from shutil_move_file[OF c f1 fresh]
    obtain m' where "map_of fs2 = (map_of fs1)(src := None, ?d \<mapsto> File m' c0)" by auto
    with False e ts g d fresh P show ?thesis by auto
  qed
qed

lemma relocate_one_failure:
  assumes r: "relocate_one ev options fs src = (fs', Inl e)"
    and f: "map_of fs src = Some (File m0 c0)"
    and ts: "fromtimestamp ev (if use_ctime options then st_ctime m0 else st_mtime m0) = Inr (y, m)"
    and mk: "path_mkdir ev fs (base_dir options @ [zero_pad 4 y, zero_pad 2 m]) = (fs1, Inr ())"
  shows "fs' = fs1 \<or> (\<exists>d m'. \<not> is_dir fs1 d \<and> map_of fs' = (map_of fs1)(d \<mapsto> File m' c0))"
proof -
  let ?P = "base_dir options @ [zero_pad 4 y, zero_pad 2 m] @ name_parts src"
  let ?d = "unique_destination_path fs1 ?P"
  note u = relocate_one_unfold[OF os_stat_file[OF f] ts mk]
  from path_mkdir_grows[OF mk] have g: "grows_dirs fs fs1" by simp
  from grows_dirs_keeps[OF g f] have f1: "map_of fs1 src = Some (File m0 c0)" .
  have fresh: "map_of fs1 ?d = None"
    using unique_destination_path_fresh[of fs1 ?P] by (simp add: path_exists_def)
  then have nd: "\<not> is_dir fs1 ?d" by (simp add: is_dir_iff)
  show ?thesis
  proof (cases "copy_no_backup options")
    case True
    from r[unfolded u] True
    have eq: "(fs', Inl e)
              = (case shutil_copy2 ev fs1 src ?d of Inl e \<Rightarrow> (fs1, Inl e)
               | Inr (fs2, d) \<Rightarrow> (fs2, Inr (?d, zero_pad 4 y, zero_pad 2 m)))"
      by simp
    then show ?thesis by (cases "shutil_copy2 ev fs1 src ?d") auto
  next
    case False
    obtain fs2 r2 where c0: "shutil_move ev fs1 src ?d = (fs2, r2)"
      by (cases "shutil_move ev fs1 src ?d")
    from r[unfolded u] False c0
    have eq: "(fs', Inl e)
              = (case r2 of Inl e \<Rightarrow> (fs2, Inl e)
               | Inr d \<Rightarrow> (fs2, Inr (?d, zero_pad 4 y, zero_pad 2 m)))"
      by (cases r2) auto
    then obtain e' where r2: "r2 = Inl e'" by (cases r2) auto
    from eq r2 have "fs' = fs2" by simp
    from c0 r2 have c: "shutil_move ev fs1 src ?d = (fs2, Inl e')" by simp
    note \<open>fs' = fs2\<close>
    with shutil_move_file[OF c f1 fresh] nd show ?thesis by blast
  qed
qed

lemma path_name_snoc: "path_name (p @ [n]) = n"
  by (simp add: path_name_def)



section \<open>Relocating one file\<close>



section \<open>A second run\<close>

lemma grows_dirs_is_file: "grows_dirs fs fs1 \<Longrightarrow> is_file fs1 q = is_file fs q"
  unfolding grows_dirs_def is_file_iff is_dir_iff
  by (metis node.distinct(1) option.distinct(1) option.inject)

lemma os_listdir_Inr:
  "os_listdir fs d = Inr names \<Longrightarrow>
     (\<exists>m. map_of fs d = Some (Dir m) \<and> readable m)
     \<and> names = map last (filter (\<lambda>p. p \<noteq> [] \<and> butlast p = d) (map fst fs))"
  by (auto simp: os_listdir_def split: option.splits node.splits if_splits)

lemma children_paths:
  "map (\<lambda>n. d @ [n]) (map last (filter (\<lambda>p. p \<noteq> [] \<and> butlast p = d) ks))
     = filter (\<lambda>p. p \<noteq> [] \<and> butlast p = d) ks"
proof (induction ks)
  case Nil
  show ?case by simp
next
  case (Cons k ks)
  show ?case
  proof (cases "k \<noteq> [] \<and> butlast k = d")
    case True
    then have "d @ [last k] = k" using append_butlast_last_id[of k] by simp
    with True Cons show ?thesis by simp
  next
    case False
    with Cons show ?thesis by auto
  qed
qed

lemma gather_files_flat:
  assumes "gather_files fs base False = Inr files"
  shows "is_dir fs base"
    and "files = filter (is_file fs) (filter (\<lambda>p. p \<noteq> [] \<and> butlast p = base) (map fst fs))"
proof -
  from assms obtain names where l: "os_listdir fs base = Inr names"
    and f: "files = filter (is_file fs) (map (\<lambda>n. base @ [n]) names)"
    by (auto simp: gather_files_def path_iterdir_def split: sum.splits)
  from os_listdir_Inr[OF l] show "is_dir fs base" by (auto simp: is_dir_iff)
  from os_listdir_Inr[OF l] f children_paths[of base "map fst fs"]
  show "files = filter (is_file fs) (filter (\<lambda>p. p \<noteq> [] \<and> butlast p = base) (map fst fs))"
    by simp
qed

lemma is_file_key: "is_file fs p \<Longrightarrow> p \<in> fst ` set fs"
  unfolding is_file_iff by (metis map_of_eq_None_iff option.distinct(1))

text \<open>What a step leaves alone at the base directory and right below it.\<close>

definition shallow_same :: "path \<Rightarrow> fs \<Rightarrow> fs \<Rightarrow> bool" where
  "shallow_same base fs fs' =
     ((\<forall>q. length q \<le> length base + 1 \<longrightarrow> is_file fs' q = is_file fs q)
      \<and> map_of fs' base = map_of fs base)"

lemma shallow_same_refl: "shallow_same base fs fs"
  by (simp add: shallow_same_def)

lemma shallow_same_trans:
  "shallow_same base a b \<Longrightarrow> shallow_same base b c \<Longrightarrow> shallow_same base a c"
  by (simp add: shallow_same_def)

lemma grows_dirs_shallow: "grows_dirs fs fs1 \<Longrightarrow> is_dir fs base \<Longrightarrow> shallow_same base fs fs1"
  unfolding shallow_same_def
  by (auto simp: grows_dirs_is_file is_dir_iff dest: grows_dirs_keeps)

lemma backup_one_shallow:
  assumes b: "backup_one ev fs base (base @ [x]) (base @ [n]) = (fs', r)"
    and d: "is_dir fs base"
  shows "shallow_same base fs fs'"
proof -
  have rel: "relative_to (base @ [n]) base = Inr [n]" by (simp add: relative_to_def)
  obtain fs1 r1 where mk: "path_mkdir ev fs (base @ [x]) = (fs1, r1)"
    by (cases "path_mkdir ev fs (base @ [x])")
  from path_mkdir_grows[OF mk] have g: "grows_dirs fs fs1" by simp
  note s1 = grows_dirs_shallow[OF g d]
  show ?thesis
  proof (cases r1)
    case (Inl e)
    with b rel mk have "fs' = fs1"
      by (simp add: backup_one_def Let_def path_parent_def butlast_append)
    with s1 show ?thesis by simp
  next
    case (Inr u)
    show ?thesis
    proof (cases "shutil_copy2 ev fs1 (base @ [n]) (base @ [x, n])")
      case e: (Inl e)
      with Inr b rel mk have "fs' = fs1"
        by (simp add: backup_one_def Let_def path_parent_def butlast_append)
      with s1 show ?thesis by simp
    next
      case c: (Inr t)
      obtain fs2 dd where t: "t = (fs2, dd)" by (cases t)
      with c Inr b rel mk have e: "fs' = fs2"
        by (simp add: backup_one_def Let_def path_parent_def butlast_append)
      from shutil_copy2_Inr[OF c[unfolded t]] obtain m c0 where
        dd: "dd = (if is_dir fs1 (base @ [x, n]) then (base @ [x, n]) @ name_parts (base @ [n])
                   else base @ [x, n])"
        and up: "map_of fs2 = (map_of fs1)(dd \<mapsto> File (m\<lparr>st_ctime := now ev\<rparr>) c0)"
        by blast
      from dd have len: "length dd \<ge> length base + 2" by (simp add: name_parts_def)
      then have "dd \<noteq> base" by auto
      with up len have "shallow_same base fs1 fs2"
        by (auto simp: shallow_same_def is_file_iff)
      with s1 e show ?thesis by (auto intro: shallow_same_trans)
    qed
  qed
qed

lemma shallow_same_is_dir: "shallow_same base fs fs' \<Longrightarrow> is_dir fs' base = is_dir fs base"
  by (simp add: shallow_same_def is_dir_def)

lemma backup_loop_shallow:
  "backup_loop ev base (base @ [x]) files (fs, errors, logs) = (fs', errors', logs') \<Longrightarrow>
   \<forall>s\<in>set files. \<exists>n. s = base @ [n] \<Longrightarrow> is_dir fs base \<Longrightarrow> shallow_same base fs fs'"
proof (induction files arbitrary: fs errors logs)
  case Nil
  then show ?case by (simp add: shallow_same_refl)
next
  case (Cons src rest)
  from Cons.prems(2) obtain n where n: "src = base @ [n]" by auto
  obtain fs1 r where b: "backup_one ev fs base (base @ [x]) (base @ [n]) = (fs1, r)"
    by (cases "backup_one ev fs base (base @ [x]) (base @ [n])")
  note s1 = backup_one_shallow[OF b Cons.prems(3)]
  from s1 Cons.prems(3) have d1: "is_dir fs1 base" by (simp add: shallow_same_is_dir)
  from Cons.prems(2) have rest: "\<forall>s\<in>set rest. \<exists>n. s = base @ [n]" by simp
  show ?case
  proof (cases r)
    case (Inl e)
    with Cons.prems(1) n b have
      "backup_loop ev base (base @ [x]) rest
         (fs1, errors + 1, logs @ [''Backup error '' @ path_str src @ '': '' @ format_exception e])
       = (fs', errors', logs')" by simp
    from Cons.IH[OF this rest d1] s1 show ?thesis by (rule shallow_same_trans[rotated])
  next
    case (Inr u)
    with Cons.prems(1) n b have
      "backup_loop ev base (base @ [x]) rest (fs1, errors, logs) = (fs', errors', logs')" by simp
    from Cons.IH[OF this rest d1] s1 show ?thesis by (rule shallow_same_trans[rotated])
  qed
qed

lemma sort_loop_errors_mono:
  "sort_loop ev options files (fs, moved, errors, logs) = (fs2, moved2, errors2, logs2) \<Longrightarrow>
   errors \<le> errors2"
proof (induction files arbitrary: fs moved errors logs)
  case Nil
  then show ?case by simp
next
  case (Cons src rest)
  obtain fs' r where step: "relocate_one ev options fs src = (fs', r)"
    by (cases "relocate_one ev options fs src")
  show ?case
  proof (cases r)
    case (Inl e)
    with step Cons.prems have
      "sort_loop ev options rest (fs', moved, errors + 1,
         logs @ [''Error moving '' @ path_name src @ '': '' @ format_exception e])
       = (fs2, moved2, errors2, logs2)" by simp
    from Cons.IH[OF this] show ?thesis by simp
  next
    case (Inr t)
    obtain dest year month where t: "t = (dest, year, month)" by (cases t)
    with Inr step Cons.prems have
      "sort_loop ev options rest (fs', moved + 1, errors,
         logs @ [(if copy_no_backup options then ''Copied: '' else ''Moved: '')
                     @ path_name src @ '' -> '' @ year @ ''/'' @ month @ ''/''])
       = (fs2, moved2, errors2, logs2)" by simp
    from Cons.IH[OF this] show ?thesis by simp
  qed
qed

lemma unique_destination_path_length:
  "length (unique_destination_path fs (p @ [n])) = length p + 1"
  using unique_destination_path_shape[of fs "p @ [n]"]
  by (auto simp: path_parent_def butlast_append)

lemma relocate_move_shallow:
  assumes r: "relocate_one ev options fs src = (fs', Inr (dest, year, month))"
    and f: "is_file fs src" and ne: "src \<noteq> []"
    and mv: "\<not> copy_no_backup options" and d: "is_dir fs (base_dir options)"
  shows "(\<forall>q. length q \<le> length (base_dir options) + 1 \<longrightarrow>
            is_file fs' q = (is_file fs q \<and> q \<noteq> src))
         \<and> map_of fs' (base_dir options) = map_of fs (base_dir options)"
proof -
  from f obtain m0 c0 where f0: "map_of fs src = Some (File m0 c0)" by (auto simp: is_file_iff)
  from relocate_one_success[OF r f0 ne] mv obtain fs1 m' where
    g: "grows_dirs fs fs1"
    and de: "dest = unique_destination_path fs1 (base_dir options @ [year, month, last src])"
    and up: "map_of fs' = (map_of fs1)(src := None, dest \<mapsto> File m' c0)"
    by auto
  have len: "length dest = length (base_dir options) + 3"
    unfolding de
    using unique_destination_path_length[of fs1 "base_dir options @ [year, month]" "last src"]
    by simp
  from d f0 have sb: "src \<noteq> base_dir options" by (auto simp: is_dir_iff)
  from len have db: "dest \<noteq> base_dir options" by auto
  from d g have "map_of fs1 (base_dir options) = map_of fs (base_dir options)"
    by (auto simp: is_dir_iff dest: grows_dirs_keeps)
  with up sb db have base: "map_of fs' (base_dir options) = map_of fs (base_dir options)" by simp
  have "\<forall>q. length q \<le> length (base_dir options) + 1 \<longrightarrow>
            is_file fs' q = (is_file fs q \<and> q \<noteq> src)"
  proof (intro allI impI)
    fix q :: path assume "length q \<le> length (base_dir options) + 1"
    with len have "q \<noteq> dest" by auto
    with up have "is_file fs' q = (is_file fs1 q \<and> q \<noteq> src)"
      by (auto simp: is_file_iff)
    with grows_dirs_is_file[OF g] show "is_file fs' q = (is_file fs q \<and> q \<noteq> src)" by simp
  qed
  with base show ?thesis by simp
qed

lemma relocate_move_keeps_files:
  assumes r: "relocate_one ev options fs src = (fs', Inr (dest, year, month))"
    and f: "is_file fs src" and ne: "src \<noteq> []"
    and mv: "\<not> copy_no_backup options"
    and s: "is_file fs s" "s \<noteq> src"
  shows "is_file fs' s"
proof -
  from f obtain m0 c0 where f0: "map_of fs src = Some (File m0 c0)" by (auto simp: is_file_iff)
  from relocate_one_success[OF r f0 ne] mv obtain fs1 m' where
    g: "grows_dirs fs fs1"
    and up: "map_of fs' = (map_of fs1)(src := None, dest \<mapsto> File m' c0)"
    by auto
  from s(1) grows_dirs_is_file[OF g] have "is_file fs1 s" by simp
  with up s(2) show ?thesis by (auto simp: is_file_iff)
qed

lemma sort_loop_moves_all:
  "sort_loop ev options files (fs, moved, errors, logs) = (fs2, moved2, errors2, logs2) \<Longrightarrow>
   errors2 = errors \<Longrightarrow> \<not> copy_no_backup options \<Longrightarrow> distinct files \<Longrightarrow>
   \<forall>s\<in>set files. is_file fs s \<and> s \<noteq> [] \<Longrightarrow> is_dir fs (base_dir options) \<Longrightarrow>
   (\<forall>q. length q \<le> length (base_dir options) + 1 \<longrightarrow>
        is_file fs2 q = (is_file fs q \<and> q \<notin> set files))
   \<and> map_of fs2 (base_dir options) = map_of fs (base_dir options)"
proof (induction files arbitrary: fs moved errors logs)
  case Nil
  then show ?case by simp
next
  case (Cons src rest)
  obtain fs' r where step: "relocate_one ev options fs src = (fs', r)"
    by (cases "relocate_one ev options fs src")
  show ?case
  proof (cases r)
    case (Inl e)
    with step Cons.prems(1) have
      "sort_loop ev options rest (fs', moved, errors + 1,
         logs @ [''Error moving '' @ path_name src @ '': '' @ format_exception e])
       = (fs2, moved2, errors2, logs2)" by simp
    from sort_loop_errors_mono[OF this] Cons.prems(2) show ?thesis by simp
  next
    case (Inr t)
    obtain dest year month where t: "t = (dest, year, month)" by (cases t)
    from step Inr t have st: "relocate_one ev options fs src = (fs', Inr (dest, year, month))"
      by simp
    with Cons.prems(1) have l:
      "sort_loop ev options rest (fs', moved + 1, errors,
         logs @ [(if copy_no_backup options then ''Copied: '' else ''Moved: '')
                     @ path_name src @ '' -> '' @ year @ ''/'' @ month @ ''/''])
       = (fs2, moved2, errors2, logs2)" by simp
    from Cons.prems(5) have fsrc: "is_file fs src" "src \<noteq> []" by simp_all
    note sh = relocate_move_shallow[OF st fsrc Cons.prems(3) Cons.prems(6)]
    from sh Cons.prems(6) have d': "is_dir fs' (base_dir options)" by (simp add: is_dir_def)
    have rest: "\<forall>s\<in>set rest. is_file fs' s \<and> s \<noteq> []"
    proof
      fix s assume s: "s \<in> set rest"
      with Cons.prems(4) have "s \<noteq> src" by auto
      moreover from s Cons.prems(5) have "is_file fs s" "s \<noteq> []" by simp_all
      ultimately show "is_file fs' s \<and> s \<noteq> []"
        using relocate_move_keeps_files[OF st fsrc Cons.prems(3)] by simp
    qed
    from Cons.prems(4) have dr: "distinct rest" by simp
    from Cons.IH[OF l Cons.prems(2) Cons.prems(3) dr rest d'] sh
    show ?thesis by auto
  qed
qed

lemma gather_files_flat_eq:
  "map_of fs d = Some (Dir m) \<Longrightarrow> readable m \<Longrightarrow>
   gather_files fs d False
     = Inr (filter (is_file fs) (filter (\<lambda>p. p \<noteq> [] \<and> butlast p = d) (map fst fs)))"
  using children_paths[of d "map fst fs"]
  by (simp add: gather_files_def path_iterdir_def os_listdir_def)

text \<open>
  C9. A filesystem state lists no path twice. After a non-recursive run in move mode
  that returned no error, a second non-recursive run over the same base directory,
  whatever its other flags and its clock, returns 0 relocated, 0 failed and the log
  \<open>["No files found."]\<close>, and leaves the filesystem as it is: the base directory
  has no regular file left among its direct children.
\<close>

theorem sort_files_second_run_nothing_to_do:
  "distinct (map fst fs) \<and> \<not> include_subdirs options \<and> \<not> copy_no_backup options
   \<and> sort_files ev options fs = (fs', Inr (moved, 0, logs))
   \<and> base_dir options2 = base_dir options \<and> \<not> include_subdirs options2 \<longrightarrow>
   sort_files ev2 options2 fs' = (fs', Inr (0, 0, [''No files found.'']))"
proof
  assume h: "distinct (map fst fs) \<and> \<not> include_subdirs options \<and> \<not> copy_no_backup options
   \<and> sort_files ev options fs = (fs', Inr (moved, 0, logs))
   \<and> base_dir options2 = base_dir options \<and> \<not> include_subdirs options2"
  let ?base = "base_dir options"
  from h have dk: "distinct (map fst fs)" and nr: "\<not> include_subdirs options"
    and mv: "\<not> copy_no_backup options"
    and run: "sort_files ev options fs = (fs', Inr (moved, 0, logs))"
    and b2: "base_dir options2 = ?base" and nr2: "\<not> include_subdirs options2" by simp_all
  from run nr obtain files where g: "gather_files fs ?base False = Inr files"
    by (cases "gather_files fs ?base False") (auto simp: sort_files_def)
  note flat = gather_files_flat[OF g]
  have empty2: "gather_files fs' ?base False = Inr []"
  proof (cases "files = []")
    case True
    with run g nr have "fs' = fs" by (simp add: sort_files_def)
    with g True show ?thesis by simp
  next
    case False
    obtain fs1 b_errors b_logs where b: "backup_files ev fs files ?base = (fs1, b_errors, b_logs)"
      by (metis prod_cases3)
    obtain fs2 moved2 errors2 logs2 where l:
      "sort_loop ev options files (fs1, 0, b_errors, b_logs) = (fs2, moved2, errors2, logs2)"
      by (metis prod_cases4)
    from run g nr mv False b l have e: "fs2 = fs'" "errors2 = 0"
      by (simp_all add: sort_files_def)
    from sort_loop_errors_mono[OF l] e have be: "b_errors = 0" by simp
    have kids: "\<forall>s\<in>set files. s \<noteq> [] \<and> butlast s = ?base \<and> is_file fs s"
      using flat(2) by auto
    have forms: "\<forall>s\<in>set files. \<exists>n. s = ?base @ [n]"
    proof
      fix s assume "s \<in> set files"
      with kids have "s \<noteq> []" "butlast s = ?base" by simp_all
      then have "s = ?base @ [last s]" using append_butlast_last_id[of s] by simp
      then show "\<exists>n. s = ?base @ [n]" ..
    qed
    from b have bl: "backup_loop ev ?base (?base @ [backup_prefix @ '' '' @ now_stamp ev]) files
                       (fs, 0, []) = (fs1, b_errors, b_logs)"
      by (simp add: backup_files_def)
    note s1 = backup_loop_shallow[OF bl forms flat(1)]
    from s1 flat(1) have d1: "is_dir fs1 ?base" by (simp add: shallow_same_is_dir)
    have f1: "\<forall>s\<in>set files. is_file fs1 s \<and> s \<noteq> []"
    proof
      fix s assume s: "s \<in> set files"
      with forms obtain n where "s = ?base @ [n]" by blast
      then have "length s \<le> length ?base + 1" by simp
      with s1 have "is_file fs1 s = is_file fs s" by (simp add: shallow_same_def)
      with s kids show "is_file fs1 s \<and> s \<noteq> []" by simp
    qed
    from dk flat(2) have df: "distinct files"
      by (simp add: distinct_map_filter)
    from l be e have l0: "sort_loop ev options files (fs1, 0, 0, b_logs) = (fs', moved2, 0, logs2)"
      by simp
    from sort_loop_moves_all[OF l0 refl mv df f1 d1]
    have after: "\<forall>q. length q \<le> length ?base + 1 \<longrightarrow>
                    is_file fs' q = (is_file fs1 q \<and> q \<notin> set files)"
      and base': "map_of fs' ?base = map_of fs1 ?base" by simp_all
    from s1 have "map_of fs1 ?base = map_of fs ?base" by (simp add: shallow_same_def)
    with base' have mb: "map_of fs' ?base = map_of fs ?base" by simp
    from g obtain names where "os_listdir fs ?base = Inr names"
      by (auto simp: gather_files_def path_iterdir_def split: sum.splits)
    from os_listdir_Inr[OF this] mb obtain m where
      dm: "map_of fs' ?base = Some (Dir m)" "readable m" by auto
    have "filter (is_file fs') (filter (\<lambda>p. p \<noteq> [] \<and> butlast p = ?base) (map fst fs')) = []"
    proof (rule ccontr)
      assume "filter (is_file fs') (filter (\<lambda>p. p \<noteq> [] \<and> butlast p = ?base) (map fst fs')) \<noteq> []"
      then obtain q where q: "is_file fs' q" "q \<noteq> []" "butlast q = ?base"
        by (auto simp: filter_empty_conv)
      from q(2,3) have "q = ?base @ [last q]" using append_butlast_last_id[of q] by simp
      then have len: "length q \<le> length ?base + 1" by (metis length_append_singleton Suc_eq_plus1 order_refl)
      with after q(1) have q1: "is_file fs1 q" "q \<notin> set files" by simp_all
      from s1 len q1(1) have "is_file fs q" by (simp add: shallow_same_def)
      with q(2,3) is_file_key[of fs q] flat(2) have "q \<in> set files" by simp
      with q1(2) show False by simp
    qed
    with gather_files_flat_eq[OF dm] show ?thesis by simp
  qed
  with b2 nr2 show "sort_files ev2 options2 fs' = (fs', Inr (0, 0, [''No files found.'']))"
    by (simp add: sort_files_def)
qed

theorem sort_files_second_run_nothing_to_do_witness:
  "distinct (map fst fs_two) \<and> \<not> include_subdirs (opts False False False)
   \<and> \<not> copy_no_backup (opts False False False)
   \<and> sort_files ev0 (opts False False False) fs_two
       = (fst (sort_files ev0 (opts False False False) fs_two),
          Inr (2, 0, [''Moved: a.txt -> 2023/01/'', ''Moved: b.txt -> 2023/01/'']))
   \<and> base_dir (opts False True False) = base_dir (opts False False False)
   \<and> \<not> include_subdirs (opts False True False)
   \<and> sort_files ev0 (opts False True False) (fst (sort_files ev0 (opts False False False) fs_two))
       = (fst (sort_files ev0 (opts False False False) fs_two), Inr (0, 0, [''No files found.'']))
   \<and> is_file (fst (sort_files ev0 (opts False False False) fs_two)) [''base'', ''2023'', ''01'', ''a.txt'']
   \<and> is_file (fst (sort_files ev0 (opts False False False) fs_two)) [''base'', ''2023'', ''01'', ''b.txt'']"
proof -
  have d: "distinct (map fst fs_two)" by (simp add: fs_two_def)
  have n: "\<not> include_subdirs (opts False False False)" by (simp add: opts_def)
  have m: "\<not> copy_no_backup (opts False False False)" by (simp add: opts_def)
  have s: "snd (sort_files ev0 (opts False False False) fs_two)
             = Inr (2, 0, [''Moved: a.txt -> 2023/01/'', ''Moved: b.txt -> 2023/01/''])"
    by code_simp
  have r: "sort_files ev0 (opts False False False) fs_two
       = (fst (sort_files ev0 (opts False False False) fs_two),
          Inr (2, 0, [''Moved: a.txt -> 2023/01/'', ''Moved: b.txt -> 2023/01/'']))"
    using s by (simp add: prod_eq_iff)
  have b: "base_dir (opts False True False) = base_dir (opts False False False)"
    by (simp add: opts_def)
  have n2: "\<not> include_subdirs (opts False True False)" by (simp add: opts_def)
  have fa: "is_file (fst (sort_files ev0 (opts False False False) fs_two)) [''base'', ''2023'', ''01'', ''a.txt'']"
    by code_simp
  have fb: "is_file (fst (sort_files ev0 (opts False False False) fs_two)) [''base'', ''2023'', ''01'', ''b.txt'']"
    by code_simp
  note x = sort_files_second_run_nothing_to_do[rule_format,
      OF conjI[OF d conjI[OF n conjI[OF m conjI[OF r conjI[OF b n2]]]]], of ev0]
  show ?thesis
    by (rule conjI[OF d conjI[OF n conjI[OF m conjI[OF r conjI[OF b conjI[OF n2 conjI[OF x conjI[OF fa fb]]]]]]]])
qed

section \<open>The run, file by file\<close>


definition fs_one_locked :: fs where
  "fs_one_locked = [([], Dir (rw 0)), ([''base''], Dir (rw 0)),
                    ([''base'', ''a.txt''], File ((rw 1673780400)\<lparr>readable := False\<rparr>) ''a'')]"



text \<open>The conditional backup block of \<open>sort_files\<close>: the state, the error count and
  the log with which the relocation loop starts.\<close>

definition backup_stage :: "env \<Rightarrow> SortOptions \<Rightarrow> fs \<Rightarrow> path list \<Rightarrow> fs \<times> nat \<times> string list" where
  "backup_stage ev options fs files =
     (if \<not> copy_no_backup options then backup_files ev fs files (base_dir options)
      else (fs, 0, []))"

text \<open>The relocation loop once more, keeping for every file its path, the state before
  its turn, the state after it and the outcome of the \<open>try\<close> body.\<close>

fun sort_steps ::
  "env \<Rightarrow> SortOptions \<Rightarrow> path list \<Rightarrow> fs
     \<Rightarrow> (path \<times> fs \<times> fs \<times> (exn + path \<times> string \<times> string)) list" where
  "sort_steps ev options [] fs = []"
| "sort_steps ev options (src # rest) fs =
     (case relocate_one ev options fs src of
        (fs', r) \<Rightarrow> (src, fs, fs', r) # sort_steps ev options rest fs')"

definition last_state :: "fs \<Rightarrow> (path \<times> fs \<times> fs \<times> (exn + path \<times> string \<times> string)) list \<Rightarrow> fs" where
  "last_state fs steps = (if steps = [] then fs else fst (snd (snd (last steps))))"

definition step_failed :: "path \<times> fs \<times> fs \<times> (exn + path \<times> string \<times> string) \<Rightarrow> bool" where
  "step_failed s = (case s of (src, a, b, Inl e) \<Rightarrow> True | (src, a, b, Inr d) \<Rightarrow> False)"

text \<open>The line the loop appends to \<open>logs\<close> for a step.\<close>

definition step_line ::
  "SortOptions \<Rightarrow> path \<times> fs \<times> fs \<times> (exn + path \<times> string \<times> string) \<Rightarrow> string" where
  "step_line options s =
     (case s of
        (src, a, b, Inr (dest, year, month)) \<Rightarrow>
          (if copy_no_backup options then ''Copied: '' else ''Moved: '')
          @ path_name src @ '' -> '' @ year @ ''/'' @ month @ ''/''
      | (src, a, b, Inl e) \<Rightarrow>
          ''Error moving '' @ path_name src @ '': '' @ format_exception e)"

lemma last_state_Cons: "last_state fs ((src, fs, fs', r) # steps) = last_state fs' steps"
  by (simp add: last_state_def)

lemma sort_loop_steps:
  "sort_loop ev options files (fs, moved, errors, logs)
     = (last_state fs (sort_steps ev options files fs),
        moved + length (filter (\<lambda>s. \<not> step_failed s) (sort_steps ev options files fs)),
        errors + length (filter step_failed (sort_steps ev options files fs)),
        logs @ map (step_line options) (sort_steps ev options files fs))"
proof (induction files arbitrary: fs moved errors logs)
  case Nil
  show ?case by (simp add: last_state_def)
next
  case (Cons src rest)
  obtain fs' r where step: "relocate_one ev options fs src = (fs', r)"
    by (cases "relocate_one ev options fs src")
  show ?case
  proof (cases r)
    case (Inl e)
    with step Cons.IH[of fs' moved "errors + 1"
        "logs @ [''Error moving '' @ path_name src @ '': '' @ format_exception e]"]
    show ?thesis by (simp add: last_state_Cons step_failed_def step_line_def)
  next
    case (Inr t)
    obtain dest year month where t: "t = (dest, year, month)" by (cases t)
    with Inr step Cons.IH[of fs' "moved + 1" errors
        "logs @ [(if copy_no_backup options then ''Copied: '' else ''Moved: '')
                     @ path_name src @ '' -> '' @ year @ ''/'' @ month @ ''/'']"]
    show ?thesis by (simp add: last_state_Cons step_failed_def step_line_def)
  qed
qed

lemma sort_steps_sources: "map fst (sort_steps ev options files fs) = files"
  by (induction files arbitrary: fs) (auto split: prod.splits)

lemma sort_steps_relocate:
  "(src, a, b, r) \<in> set (sort_steps ev options files fs) \<Longrightarrow> relocate_one ev options a src = (b, r)"
  by (induction files arbitrary: fs) (auto split: prod.splits)

lemma sort_steps_chain:
  "Suc i < length (sort_steps ev options files fs) \<Longrightarrow>
     fst (snd (sort_steps ev options files fs ! Suc i))
       = fst (snd (snd (sort_steps ev options files fs ! i)))"
proof (induction files arbitrary: fs i)
  case Nil
  then show ?case by simp
next
  case (Cons src rest)
  obtain fs' r where step: "relocate_one ev options fs src = (fs', r)"
    by (cases "relocate_one ev options fs src")
  show ?case
  proof (cases i)
    case 0
    with Cons.prems step show ?thesis by (cases rest) (auto split: prod.splits)
  next
    case (Suc j)
    with Cons.prems step Cons.IH[of j fs'] show ?thesis by simp
  qed
qed

lemma sort_steps_first:
  "files \<noteq> [] \<Longrightarrow> fst (snd (sort_steps ev options files fs ! 0)) = fs"
  by (cases files) (auto split: prod.splits)

lemma sort_files_steps:
  assumes g: "gather_files fs (base_dir options) (include_subdirs options) = Inr files"
    and ne: "files \<noteq> []"
    and b: "backup_stage ev options fs files = (fs0, b_errors, b_logs)"
  shows "sort_files ev options fs
           = (last_state fs0 (sort_steps ev options files fs0),
              Inr (length (filter (\<lambda>s. \<not> step_failed s) (sort_steps ev options files fs0)),
                   b_errors + length (filter step_failed (sort_steps ev options files fs0)),
                   b_logs @ map (step_line options) (sort_steps ev options files fs0)))"
  using g ne b sort_loop_steps[of ev options files fs0 0 b_errors b_logs]
  by (simp add: sort_files_def backup_stage_def)

text \<open>
  C6. For every run of \<open>sort_files\<close> whose scan returned candidates:
  \<open>sort_files\<close> returns its triple, so no exception of the relocation loop leaves it;
  the loop takes every candidate in scan order, the first from the state the backup stage
  left and each next one from the state the one before left, whatever the outcomes; the
  error count is the backup stage's count plus one for every relocation that raised; the
  log is the backup stage's lines followed by one line per candidate, and the line of a
  relocation that raised is \<open>Error moving <name>: <ExceptionKind>: <message>\<close>.
\<close>

theorem sort_files_isolates_failures:
  assumes "gather_files fs (base_dir options) (include_subdirs options) = Inr files"
    and "files \<noteq> []"
    and "backup_stage ev options fs files = (fs0, b_errors, b_logs)"
    and "steps = sort_steps ev options files fs0"
  shows "sort_files ev options fs
           = (last_state fs0 steps,
              Inr (length (filter (\<lambda>s. \<not> step_failed s) steps),
                   b_errors + length (filter step_failed steps),
                   b_logs @ map (step_line options) steps))
         \<and> map fst steps = files
         \<and> fst (snd (steps ! 0)) = fs0
         \<and> (\<forall>i. Suc i < length steps \<longrightarrow>
                fst (snd (steps ! Suc i)) = fst (snd (snd (steps ! i))))
         \<and> (\<forall>src a b r. (src, a, b, r) \<in> set steps \<longrightarrow> relocate_one ev options a src = (b, r))
         \<and> (\<forall>src a b e. (src, a, b, Inl e) \<in> set steps \<longrightarrow>
                step_failed (src, a, b, Inl e)
                \<and> step_line options (src, a, b, Inl e)
                    = ''Error moving '' @ path_name src @ '': ''
                      @ kind_name (kind_of e) @ '': '' @ message_of e)"
  unfolding assms(4)
  using sort_files_steps[OF assms(1,2,3)] sort_steps_sources[of ev options files fs0]
    sort_steps_first[OF assms(2), of ev options fs0]
  by (auto simp: sort_steps_chain step_failed_def step_line_def format_exception_def
      dest: sort_steps_relocate)

theorem sort_files_isolates_failures_witness:
  "gather_files fs_locked (base_dir (opts False False True)) (include_subdirs (opts False False True))
     = Inr [[''base'', ''a.txt''], [''base'', ''b.txt'']]
   \<and> [[''base'', ''a.txt''], [''base'', ''b.txt'']] \<noteq> []
   \<and> backup_stage ev0 (opts False False True) fs_locked [[''base'', ''a.txt''], [''base'', ''b.txt'']]
       = (fs_locked, 0, [])
   \<and> sort_files ev0 (opts False False True) fs_locked
       = (last_state fs_locked
            (sort_steps ev0 (opts False False True) [[''base'', ''a.txt''], [''base'', ''b.txt'']] fs_locked),
          Inr (length (filter (\<lambda>s. \<not> step_failed s)
                        (sort_steps ev0 (opts False False True)
                           [[''base'', ''a.txt''], [''base'', ''b.txt'']] fs_locked)),
               0 + length (filter step_failed
                        (sort_steps ev0 (opts False False True)
                           [[''base'', ''a.txt''], [''base'', ''b.txt'']] fs_locked)),
               [] @ map (step_line (opts False False True))
                      (sort_steps ev0 (opts False False True)
                         [[''base'', ''a.txt''], [''base'', ''b.txt'']] fs_locked)))
   \<and> map fst (sort_steps ev0 (opts False False True)
                 [[''base'', ''a.txt''], [''base'', ''b.txt'']] fs_locked)
       = [[''base'', ''a.txt''], [''base'', ''b.txt'']]
   \<and> ([''base'', ''a.txt''], fs_locked,
       fs_locked @ [([''base'', ''2023''], Dir (rw 1700000000)),
                    ([''base'', ''2023'', ''01''], Dir (rw 1700000000))],
       Inl (os_error PermissionError [''base'', ''a.txt'']))
      \<in> set (sort_steps ev0 (opts False False True)
                [[''base'', ''a.txt''], [''base'', ''b.txt'']] fs_locked)
   \<and> relocate_one ev0 (opts False False True) fs_locked [''base'', ''a.txt'']
       = (fs_locked @ [([''base'', ''2023''], Dir (rw 1700000000)),
                       ([''base'', ''2023'', ''01''], Dir (rw 1700000000))],
          Inl (os_error PermissionError [''base'', ''a.txt'']))
   \<and> (step_failed ([''base'', ''a.txt''], fs_locked,
                    fs_locked @ [([''base'', ''2023''], Dir (rw 1700000000)),
                                 ([''base'', ''2023'', ''01''], Dir (rw 1700000000))],
                    Inl (os_error PermissionError [''base'', ''a.txt'']))
       \<and> step_line (opts False False True)
            ([''base'', ''a.txt''], fs_locked,
             fs_locked @ [([''base'', ''2023''], Dir (rw 1700000000)),
                          ([''base'', ''2023'', ''01''], Dir (rw 1700000000))],
             Inl (os_error PermissionError [''base'', ''a.txt'']))
           = ''Error moving '' @ path_name [''base'', ''a.txt''] @ '': ''
             @ kind_name (kind_of (os_error PermissionError [''base'', ''a.txt''])) @ '': ''
             @ message_of (os_error PermissionError [''base'', ''a.txt'']))
   \<and> snd (sort_files ev0 (opts False False True) fs_locked)
       = Inr (1, 1,
              [''Error moving a.txt: PermissionError: ''
                 @ message_of (os_error PermissionError [''base'', ''a.txt'']),
               ''Copied: b.txt -> 2023/01/''])"
proof -
  have g: "gather_files fs_locked (base_dir (opts False False True))
             (include_subdirs (opts False False True))
           = Inr [[''base'', ''a.txt''], [''base'', ''b.txt'']]"
    by code_simp
  have n: "[[''base'', ''a.txt''], [''base'', ''b.txt'']] \<noteq> ([] :: path list)" by simp
  have b: "backup_stage ev0 (opts False False True) fs_locked
             [[''base'', ''a.txt''], [''base'', ''b.txt'']] = (fs_locked, 0, [])"
    by (simp add: backup_stage_def opts_def)
  have m: "([''base'', ''a.txt''], fs_locked,
       fs_locked @ [([''base'', ''2023''], Dir (rw 1700000000)),
                    ([''base'', ''2023'', ''01''], Dir (rw 1700000000))],
       Inl (os_error PermissionError [''base'', ''a.txt'']))
      \<in> set (sort_steps ev0 (opts False False True)
                [[''base'', ''a.txt''], [''base'', ''b.txt'']] fs_locked)"
    by code_simp
  have r: "snd (sort_files ev0 (opts False False True) fs_locked)
       = Inr (1, 1,
              [''Error moving a.txt: PermissionError: ''
                 @ message_of (os_error PermissionError [''base'', ''a.txt'']),
               ''Copied: b.txt -> 2023/01/''])"
    by code_simp
  note th = sort_files_isolates_failures[OF g n b refl]
  note c1 = th[THEN conjunct1]
  note c2 = th[THEN conjunct2, THEN conjunct1]
  note c5 = th[THEN conjunct2, THEN conjunct2, THEN conjunct2, THEN conjunct2, THEN conjunct1,
      rule_format, OF m]
  note c6 = th[THEN conjunct2, THEN conjunct2, THEN conjunct2, THEN conjunct2, THEN conjunct2,
      rule_format, OF m]
  show ?thesis
    by (rule conjI[OF g conjI[OF n conjI[OF b conjI[OF c1 conjI[OF c2 conjI[OF m conjI[OF c5 conjI[OF c6 r]]]]]]]])
qed


section \<open>What a run leaves of each file\<close>

text \<open>A path in a year and month directory of the base, as the scanner's skip test
  sees it.\<close>

definition dated :: "path \<Rightarrow> path \<Rightarrow> bool" where
  "dated base q = (prefix base q \<and> already_sorted (drop (length base) q))"

lemma dated_dest:
  assumes "1 \<le> y" "y \<le> 9999" "1 \<le> m" "m \<le> (12::int)"
  shows "dated base (unique_destination_path fs (base @ [zero_pad 4 y, zero_pad 2 m, n]))"
proof -
  let ?Y = "zero_pad 4 y" and ?M = "zero_pad 2 m"
  from assms have yd: "length ?Y = 4 \<and> list_all ascii_digit ?Y"
    by (intro zero_pad_digits) simp_all
  from assms have md: "length ?M = 2 \<and> list_all ascii_digit ?M"
    by (intro zero_pad_digits) simp_all
  from yd have y1: "str_isdigit ?Y" by (intro ascii_isdigit) auto
  from md have m1: "str_isdigit ?M" by (intro ascii_isdigit) auto
  let ?P = "base @ [?Y, ?M, n]"
  have "path_parent ?P = base @ [?Y, ?M]" by (simp add: path_parent_def butlast_append)
  with unique_destination_path_shape[of fs ?P]
  obtain n' where "unique_destination_path fs ?P = base @ [?Y, ?M, n']" by auto
  with yd md y1 m1 show ?thesis by (simp add: dated_def already_sorted_def)
qed

text \<open>What the relocation of one regular file does to the filesystem: every other
  path that existed keeps its node, the source keeps its node or (in move mode) is gone,
  and a regular file appears only at a dated path.\<close>

lemma relocate_one_effect:
  assumes r: "relocate_one ev options X s = (X', res)"
    and f: "is_file X s" and ne: "s \<noteq> []"
  shows "(\<forall>q. q \<noteq> s \<longrightarrow> map_of X q \<noteq> None \<longrightarrow> map_of X' q = map_of X q)
       \<and> (map_of X' s = map_of X s \<or> (\<not> copy_no_backup options \<and> map_of X' s = None))
       \<and> (\<forall>q. map_of X q = None \<longrightarrow> is_file X' q \<longrightarrow> dated (base_dir options) q)"
proof -
  from f obtain m0 c0 where f0: "map_of X s = Some (File m0 c0)" by (auto simp: is_file_iff)
  note st = os_stat_file[OF f0]
  let ?ts = "if use_ctime options then st_ctime m0 else st_mtime m0"
  show ?thesis
  proof (cases "fromtimestamp ev ?ts")
    case (Inl e)
    with r st have "X' = X" by (simp add: relocate_one_def)
    then show ?thesis by (auto simp: is_file_iff)
  next
    case (Inr ym)
    obtain y m where ym: "ym = (y, m)" by (cases ym)
    with Inr have ts: "fromtimestamp ev ?ts = Inr (y, m)" by simp
    from fromtimestamp_Inr[OF ts] have rng: "1 \<le> y" "y \<le> 9999" "1 \<le> m" "m \<le> 12" by simp_all
    let ?dd = "base_dir options @ [zero_pad 4 y, zero_pad 2 m]"
    obtain X1 r1 where mk0: "path_mkdir ev X ?dd = (X1, r1)" by (cases "path_mkdir ev X ?dd")
    from path_mkdir_grows[OF mk0] have g: "grows_dirs X X1" by simp
    have g_keep: "\<And>q. map_of X q \<noteq> None \<Longrightarrow> map_of X1 q = map_of X q"
      using g unfolding grows_dirs_def by metis
    have g_none: "\<And>q. map_of X1 q = None \<Longrightarrow> map_of X q = None"
      using g unfolding grows_dirs_def by metis
    have g_file: "\<And>q. is_file X1 q = is_file X q" by (rule grows_dirs_is_file[OF g])
    from g_keep f0 have f1: "map_of X1 s = Some (File m0 c0)" by simp
    have base_case: "(\<forall>q. q \<noteq> s \<longrightarrow> map_of X q \<noteq> None \<longrightarrow> map_of X1 q = map_of X q)
       \<and> (map_of X1 s = map_of X s \<or> (\<not> copy_no_backup options \<and> map_of X1 s = None))
       \<and> (\<forall>q. map_of X q = None \<longrightarrow> is_file X1 q \<longrightarrow> dated (base_dir options) q)"
      using g_keep g_file f0 f1 by (auto simp: is_file_iff)
    show ?thesis
    proof (cases r1)
      case (Inl e)
      with r st ts mk0 have "X' = X1" by (simp add: relocate_one_def Let_def)
      with base_case show ?thesis by simp
    next
      case (Inr u)
      with mk0 have mk: "path_mkdir ev X ?dd = (X1, Inr ())" by simp
      let ?d = "unique_destination_path X1 (?dd @ name_parts s)"
      note u = relocate_one_unfold[OF st ts mk]
      have fresh: "map_of X1 ?d = None"
        using unique_destination_path_fresh[of X1 "?dd @ name_parts s"]
        by (simp add: path_exists_def)
      then have nd: "\<not> is_dir X1 ?d" by (simp add: is_dir_iff)
      from g_none[OF fresh] have fresh0: "map_of X ?d = None" .
      from f1 fresh have sd: "s \<noteq> ?d" by auto
      from ne have "?dd @ name_parts s = base_dir options @ [zero_pad 4 y, zero_pad 2 m, last s]"
        by (simp add: name_parts_def)
      with dated_dest[OF rng, of "base_dir options" X1 "last s"]
      have dd: "dated (base_dir options) ?d" by simp
      have upd_case: "(\<forall>q. q \<noteq> s \<longrightarrow> map_of X q \<noteq> None \<longrightarrow> map_of X' q = map_of X q)
         \<and> (map_of X' s = map_of X s \<or> (\<not> copy_no_backup options \<and> map_of X' s = None))
         \<and> (\<forall>q. map_of X q = None \<longrightarrow> is_file X' q \<longrightarrow> dated (base_dir options) q)"
        if up: "map_of X' = (map_of X1)(?d \<mapsto> File m' c0)
                \<or> (\<not> copy_no_backup options \<and> map_of X' = (map_of X1)(s := None, ?d \<mapsto> File m' c0))"
        for m'
      proof (intro conjI allI impI)
        fix q assume "q \<noteq> s" "map_of X q \<noteq> None"
        with fresh0 have "q \<noteq> ?d" by auto
        with up \<open>q \<noteq> s\<close> have "map_of X' q = map_of X1 q" by auto
        with g_keep[OF \<open>map_of X q \<noteq> None\<close>] show "map_of X' q = map_of X q" by simp
      next
        from up sd f1 f0
        show "map_of X' s = map_of X s \<or> (\<not> copy_no_backup options \<and> map_of X' s = None)"
          by auto
      next
        fix q assume n: "map_of X q = None" and fq: "is_file X' q"
        show "dated (base_dir options) q"
        proof (cases "q = ?d")
          case True
          with dd show ?thesis by simp
        next
          case False
          with up fq have "is_file X1 q" by (auto simp: is_file_iff split: if_splits)
          with g_file n show ?thesis by (simp add: is_file_iff)
        qed
      qed
      show ?thesis
      proof (cases "copy_no_backup options")
        case True
        show ?thesis
        proof (cases "shutil_copy2 ev X1 s ?d")
          case e: (Inl e)
          with r[unfolded u] True have "X' = X1" by simp
          with base_case show ?thesis by simp
        next
          case c: (Inr t)
          obtain X2 d2 where t: "t = (X2, d2)" by (cases t)
          from r[unfolded u] True c t have e: "X' = X2" by simp
          from shutil_copy2_Inr[OF c[unfolded t]] nd f1
          have "map_of X2 = (map_of X1)(?d \<mapsto> File (m0\<lparr>st_ctime := now ev\<rparr>) c0)" by auto
          with e show ?thesis using upd_case[of "m0\<lparr>st_ctime := now ev\<rparr>"] by simp
        qed
      next
        case False
        obtain X2 r2 where c0: "shutil_move ev X1 s ?d = (X2, r2)"
          by (cases "shutil_move ev X1 s ?d")
        from r[unfolded u] False c0 have e: "X' = X2" by (cases r2) auto
        from shutil_move_file[OF c0 f1 fresh]
        have "X2 = X1 \<or> (\<exists>m'. map_of X2 = (map_of X1)(?d \<mapsto> File m' c0))
              \<or> (\<exists>m'. map_of X2 = (map_of X1)(s := None, ?d \<mapsto> File m' c0))"
          by (cases r2) auto
        then consider "X2 = X1" | m' where "map_of X2 = (map_of X1)(?d \<mapsto> File m' c0)"
          | m' where "map_of X2 = (map_of X1)(s := None, ?d \<mapsto> File m' c0)" by blast
        then show ?thesis
        proof cases
          case 1
          with e base_case show ?thesis by simp
        next
          case (2 m')
          with e show ?thesis using upd_case[of m'] by simp
        next
          case (3 m')
          with e False show ?thesis using upd_case[of m'] by simp
        qed
      qed
    qed
  qed
qed

lemma relocate_one_keeps_candidates:
  assumes r: "relocate_one ev options X s = (X', res)"
    and d: "distinct (s # rest)" and f: "\<forall>x\<in>set (s # rest). is_file X x \<and> x \<noteq> []"
  shows "\<forall>x\<in>set rest. is_file X' x \<and> x \<noteq> [] \<and> map_of X' x = map_of X x"
proof
  fix x assume x: "x \<in> set rest"
  from f have fs: "is_file X s" "s \<noteq> []" by simp_all
  from x d have "x \<noteq> s" by auto
  moreover from x f have fx: "is_file X x" "x \<noteq> []" by simp_all
  then have "map_of X x \<noteq> None" by (auto simp: is_file_iff)
  ultimately have "map_of X' x = map_of X x"
    using relocate_one_effect[OF r fs] by blast
  with fx show "is_file X' x \<and> x \<noteq> [] \<and> map_of X' x = map_of X x"
    by (simp add: is_file_def)
qed

lemma sort_steps_keep:
  "distinct files \<Longrightarrow> \<forall>s\<in>set files. is_file X s \<and> s \<noteq> [] \<Longrightarrow>
   map_of X q \<noteq> None \<Longrightarrow> q \<notin> set files \<Longrightarrow>
   map_of (last_state X (sort_steps ev options files X)) q = map_of X q"
proof (induction files arbitrary: X)
  case Nil
  show ?case by (simp add: last_state_def)
next
  case (Cons s rest)
  obtain X' res where r: "relocate_one ev options X s = (X', res)"
    by (cases "relocate_one ev options X s")
  from Cons.prems(2) have fs: "is_file X s" "s \<noteq> []" by simp_all
  from Cons.prems(4) have qs: "q \<noteq> s" "q \<notin> set rest" by simp_all
  from relocate_one_effect[OF r fs] qs(1) Cons.prems(3)
  have q': "map_of X' q = map_of X q" by blast
  from relocate_one_keeps_candidates[OF r Cons.prems(1) Cons.prems(2)]
  have inv: "\<forall>x\<in>set rest. is_file X' x \<and> x \<noteq> []" by simp
  from Cons.prems(1) have dr: "distinct rest" by simp
  from q' Cons.prems(3) have ex': "map_of X' q \<noteq> None" by simp
  from Cons.IH[OF dr inv ex' qs(2)] q'
  have "map_of (last_state X' (sort_steps ev options rest X')) q = map_of X q" by simp
  with r show ?case by (simp add: last_state_Cons)
qed


text \<open>A step of the run, seen from the start of the loop and from its end.\<close>

lemma sort_steps_entry:
  "(src, A, B, res) \<in> set (sort_steps ev options files X) \<Longrightarrow>
   distinct files \<Longrightarrow> \<forall>s\<in>set files. is_file X s \<and> s \<noteq> [] \<Longrightarrow>
   src \<in> set files \<and> map_of A src = map_of X src \<and> relocate_one ev options A src = (B, res)
   \<and> (\<exists>post. distinct post \<and> src \<notin> set post
          \<and> (\<forall>s\<in>set post. is_file A s \<and> is_file B s \<and> s \<noteq> [])
          \<and> last_state X (sort_steps ev options files X)
              = last_state B (sort_steps ev options post B))"
proof (induction files arbitrary: X)
  case Nil
  then show ?case by simp
next
  case (Cons s rest)
  obtain X' r0 where r: "relocate_one ev options X s = (X', r0)"
    by (cases "relocate_one ev options X s")
  note keep = relocate_one_keeps_candidates[OF r Cons.prems(2) Cons.prems(3)]
  from Cons.prems(2) have dr: "distinct rest" and sr: "s \<notin> set rest" by simp_all
  from Cons.prems(1) r consider "(src, A, B, res) = (s, X, X', r0)"
    | "(src, A, B, res) \<in> set (sort_steps ev options rest X')" by auto
  then show ?case
  proof cases
    case 1
    then have e: "src = s" "A = X" "B = X'" "res = r0" by simp_all
    from keep Cons.prems(3) have "\<forall>x\<in>set rest. is_file A x \<and> is_file B x \<and> x \<noteq> []"
      unfolding e by simp
    with e r dr sr show ?thesis
      by (intro conjI exI[of _ rest]) (simp_all add: last_state_Cons)
  next
    case 2
    from keep have inv: "\<forall>x\<in>set rest. is_file X' x \<and> x \<noteq> []" by simp
    from Cons.IH[OF 2 dr inv] obtain post where
      a: "src \<in> set rest" "map_of A src = map_of X' src" "relocate_one ev options A src = (B, res)"
      and p: "distinct post" "src \<notin> set post" "\<forall>s\<in>set post. is_file A s \<and> is_file B s \<and> s \<noteq> []"
        "last_state X' (sort_steps ev options rest X') = last_state B (sort_steps ev options post B)"
      by blast
    from keep a(1) have "map_of X' src = map_of X src" by simp
    with a p r show ?thesis
      by (intro conjI exI[of _ post]) (simp_all add: last_state_Cons)
  qed
qed

text \<open>What the scanner's result is made of: regular files below the base directory,
  outside the dated directories, and not in a directory of the base whose name starts
  with the backup prefix.\<close>

definition backup_safe :: "path \<Rightarrow> path \<Rightarrow> bool" where
  "backup_safe base s = (\<forall>b rel. s = base @ b # rel \<longrightarrow> rel \<noteq> [] \<longrightarrow> \<not> prefix backup_prefix b)"

lemma gather_files_candidates:
  assumes g: "gather_files fs base inc = Inr files" and s: "s \<in> set files"
  shows "is_file fs s \<and> s \<noteq> [] \<and> \<not> dated base s \<and> backup_safe base s
         \<and> (\<exists>rel. s = base @ rel \<and> rel \<noteq> [])"
proof (cases inc)
  case False
  with g have g0: "gather_files fs base False = Inr files" by simp
  from gather_files_flat(2)[OF g0] s have f: "is_file fs s" and n: "s \<noteq> []"
    and b: "butlast s = base" by auto
  from n b have e: "s = base @ [last s]" using append_butlast_last_id[of s] by simp
  have nd: "\<not> dated base s"
  proof
    assume "dated base s"
    then have "already_sorted (drop (length base) s)" by (simp add: dated_def)
    moreover have "drop (length base) s = [last s]" by (subst e) simp
    ultimately show False by (simp add: already_sorted_def)
  qed
  have bs: "backup_safe base s"
    unfolding backup_safe_def
  proof (intro allI impI)
    fix b rel assume "s = base @ b # rel" "rel \<noteq> []"
    with e have "base @ [last s] = base @ b # rel" by simp
    then have "[last s] = b # rel" by simp
    with \<open>rel \<noteq> []\<close> show "\<not> prefix backup_prefix b" by simp
  qed
  from f n nd bs e show ?thesis by blast
next
  case True
  with g s have f: "is_file fs s"
    and m: "s \<in> set (concat (map (gather_root base) (os_walk fs keep_dir base)))"
    by (auto simp: gather_files_def)
  from gathered_mem[OF m] obtain r ds fl n where t: "(r, ds, fl) \<in> set (os_walk fs keep_dir base)"
    and p: "s \<in> set (gather_entry base r n)" by blast
  from os_walk_roots[OF t] obtain rel0 where r0: "r = base @ rel0" "\<forall>d\<in>set rel0. keep_dir d"
    by auto
  from gather_entry_mem[OF p] have e: "s = r @ [n]"
    and ns: "\<forall>rel. relative_to s base = Inr rel \<longrightarrow> \<not> already_sorted rel" by simp_all
  from e r0 have e': "s = base @ rel0 @ [n]" by simp
  then have "relative_to s base = Inr (rel0 @ [n])" by (simp add: relative_to_def)
  with ns have "\<not> already_sorted (rel0 @ [n])" by simp
  with e' have nd: "\<not> dated base s" by (simp add: dated_def)
  have bs: "backup_safe base s"
    unfolding backup_safe_def
  proof (intro allI impI)
    fix b rel assume "s = base @ b # rel" "rel \<noteq> []"
    with e' have "rel0 @ [n] = b # rel" by simp
    with \<open>rel \<noteq> []\<close> have "b \<in> set rel0" by (cases rel0) auto
    with r0(2) show "\<not> prefix backup_prefix b" by (simp add: keep_dir_def)
  qed
  from f e' nd bs show ?thesis by (intro conjI exI[of _ "rel0 @ [n]"]) simp_all
qed

lemma distinct_concat_map:
  "distinct xs \<Longrightarrow> (\<And>x. x \<in> set xs \<Longrightarrow> distinct (f x)) \<Longrightarrow>
   (\<And>x y. x \<in> set xs \<Longrightarrow> y \<in> set xs \<Longrightarrow> x \<noteq> y \<Longrightarrow> set (f x) \<inter> set (f y) = {}) \<Longrightarrow>
   distinct (concat (map f xs))"
proof (induction xs)
  case Nil
  show ?case by simp
next
  case (Cons x xs)
  have "distinct (concat (map f xs))"
    using Cons.prems by (intro Cons.IH) auto
  moreover have "distinct (f x)" using Cons.prems(2) by simp
  moreover have "set (f x) \<inter> set (concat (map f xs)) = {}"
  proof -
    have "\<And>y. y \<in> set xs \<Longrightarrow> set (f x) \<inter> set (f y) = {}"
      using Cons.prems(1,3) by auto
    then show ?thesis by auto
  qed
  ultimately show ?case by simp
qed

lemma os_listdir_distinct:
  assumes "distinct (map fst fs)" "os_listdir fs d = Inr names"
  shows "distinct names"
proof -
  from os_listdir_Inr[OF assms(2)]
  have n: "names = map last (filter (\<lambda>p. p \<noteq> [] \<and> butlast p = d) (map fst fs))" by simp
  from assms(1) have "distinct (filter (\<lambda>p. p \<noteq> [] \<and> butlast p = d) (map fst fs))" by simp
  with children_paths[of d "map fst fs"] n have "distinct (map (\<lambda>n. d @ [n]) names)" by simp
  then show ?thesis by (simp add: distinct_map)
qed

lemma os_walk_distinct:
  "distinct (map fst fs) \<Longrightarrow> distinct (map fst (os_walk fs keep root))
     \<and> (\<forall>t\<in>set (os_walk fs keep root). distinct (snd (snd t)))"
proof (induction fs keep root rule: os_walk.induct)
  case (1 fs keep root)
  show ?case
  proof (cases "os_listdir fs root")
    case (Inl e)
    then show ?thesis by (subst os_walk.simps, subst (2) os_walk.simps) simp
  next
    case (Inr names)
    let ?dirs = "filter keep (filter (\<lambda>n. is_dir fs (root @ [n])) names)"
    let ?sub = "\<lambda>d. os_walk fs keep (root @ [d])"
    have w: "os_walk fs keep root
               = (root, filter (\<lambda>n. is_dir fs (root @ [n])) names,
                        filter (\<lambda>n. \<not> is_dir fs (root @ [n])) names)
                 # concat (map ?sub ?dirs)"
      using Inr by (subst os_walk.simps) simp
    from os_listdir_distinct[OF "1.prems" Inr] have dn: "distinct names" .
    then have dd: "distinct ?dirs" by simp
    have ih: "\<And>d. d \<in> set ?dirs \<Longrightarrow> distinct (map fst (?sub d))
                 \<and> (\<forall>t\<in>set (?sub d). distinct (snd (snd t)))"
      using "1.IH"[OF Inr _ "1.prems"] by blast
    have roots: "\<And>d t. t \<in> set (?sub d) \<Longrightarrow> prefix (root @ [d]) (fst t)"
      using os_walk_roots by (metis prefixI)
    have m: "map fst (concat (map ?sub ?dirs)) = concat (map (\<lambda>d. map fst (?sub d)) ?dirs)"
      by (simp add: map_concat comp_def)
    have A: "distinct (concat (map (\<lambda>d. map fst (?sub d)) ?dirs))"
    proof (rule distinct_concat_map[OF dd])
      fix d assume "d \<in> set ?dirs"
      with ih show "distinct (map fst (?sub d))" by blast
    next
      fix d d' assume "d \<in> set ?dirs" "d' \<in> set ?dirs" "d \<noteq> d'"
      show "set (map fst (?sub d)) \<inter> set (map fst (?sub d')) = {}"
      proof (rule ccontr)
        assume "set (map fst (?sub d)) \<inter> set (map fst (?sub d')) \<noteq> {}"
        then obtain x where "x \<in> set (map fst (?sub d))" "x \<in> set (map fst (?sub d'))" by blast
        then obtain t t' where "t \<in> set (?sub d)" "t' \<in> set (?sub d')" "fst t = fst t'"
          by (metis (no_types, lifting) imageE list.set_map)
        with roots[of t d] roots[of t' d']
        have "prefix (root @ [d]) (fst t)" "prefix (root @ [d']) (fst t)" by simp_all
        then obtain u v where "fst t = (root @ [d]) @ u" "fst t = (root @ [d']) @ v"
          by (auto simp: prefix_def)
        then have "d = d'" by simp
        with \<open>d \<noteq> d'\<close> show False by simp
      qed
    qed
    have B: "root \<notin> set (concat (map (\<lambda>d. map fst (?sub d)) ?dirs))"
    proof
      assume "root \<in> set (concat (map (\<lambda>d. map fst (?sub d)) ?dirs))"
      then obtain d t where "t \<in> set (?sub d)" "fst t = root" by auto
      with roots[of t d] have "prefix (root @ [d]) root" by simp
      then show False by (auto simp: prefix_def)
    qed
    from A B have d1: "distinct (map fst (os_walk fs keep root))"
      unfolding w list.map fst_conv distinct.simps m by blast
    have d2: "\<forall>t\<in>set (os_walk fs keep root). distinct (snd (snd t))"
      unfolding w using dn ih by auto
    from d1 d2 show ?thesis by simp
  qed
qed

lemma gather_root_distinct:
  "distinct fl \<Longrightarrow> distinct (gather_root base (r, ds, fl))
       \<and> (\<forall>p\<in>set (gather_root base (r, ds, fl)). p \<noteq> [] \<and> butlast p = r)"
proof (induction fl)
  case Nil
  show ?case by (simp add: gather_root_def)
next
  case (Cons n fl)
  then have ih: "distinct (gather_root base (r, ds, fl))"
    "\<forall>p\<in>set (gather_root base (r, ds, fl)). p \<noteq> [] \<and> butlast p = r" by simp_all
  have e: "gather_root base (r, ds, n # fl) = gather_entry base r n @ gather_root base (r, ds, fl)"
    by (simp add: gather_root_def)
  have ge: "gather_entry base r n = [] \<or> gather_entry base r n = [r @ [n]]"
    by (auto simp: gather_entry_def Let_def split: sum.splits)
  have "r @ [n] \<notin> set (gather_root base (r, ds, fl))"
  proof
    assume "r @ [n] \<in> set (gather_root base (r, ds, fl))"
    then obtain n' where "n' \<in> set fl" "r @ [n] \<in> set (gather_entry base r n')"
      by (auto simp: gather_root_def)
    with gather_entry_mem[of "r @ [n]" base r n'] have "n = n'" by simp
    with \<open>n' \<in> set fl\<close> Cons.prems show False by simp
  qed
  with ge ih show ?case unfolding e by auto
qed

lemma gather_files_distinct:
  assumes dk: "distinct (map fst fs)" and g: "gather_files fs base inc = Inr files"
  shows "distinct files"
proof (cases inc)
  case False
  with g have "gather_files fs base False = Inr files" by simp
  from gather_files_flat(2)[OF this] dk show ?thesis by simp
next
  case True
  let ?W = "os_walk fs keep_dir base"
  from os_walk_distinct[OF dk, of keep_dir base]
  have dw: "distinct (map fst ?W)" and dfl: "\<forall>t\<in>set ?W. distinct (snd (snd t))" by simp_all
  from dw have dW: "distinct ?W" by (simp add: distinct_map)
  have "distinct (concat (map (gather_root base) ?W))"
  proof (rule distinct_concat_map[OF dW])
    fix t assume t: "t \<in> set ?W"
    obtain r ds fl where e: "t = (r, ds, fl)" by (cases t)
    with t dfl have "distinct fl" by auto
    from gather_root_distinct[OF this, of base r ds] e show "distinct (gather_root base t)" by simp
  next
    fix t t' assume t: "t \<in> set ?W" "t' \<in> set ?W" "t \<noteq> t'"
    obtain r ds fl where e: "t = (r, ds, fl)" by (cases t)
    obtain r' ds' fl' where e': "t' = (r', ds', fl')" by (cases t')
    have rr: "r \<noteq> r'"
    proof
      assume "r = r'"
      then have "fst t = fst t'" by (simp add: e e')
      with dw t(1,2) have "t = t'" by (auto simp: distinct_map inj_on_def)
      with t(3) show False by simp
    qed
    from t dfl e e' have "distinct fl" "distinct fl'" by auto
    from gather_root_distinct[OF this(1), of base r ds] gather_root_distinct[OF this(2), of base r' ds'] rr
    show "set (gather_root base t) \<inter> set (gather_root base t') = {}"
      unfolding e e' by auto
  qed
  with g True show ?thesis by (auto simp: gather_files_def)
qed

lemma backup_one_keeps:
  assumes b: "backup_one ev X base (base @ [B]) src = (X', r)"
    and src: "src = base @ rel" "rel \<noteq> []"
    and q: "map_of X q \<noteq> None" "\<forall>rel'. rel' \<noteq> [] \<longrightarrow> q \<noteq> base @ B # rel'"
  shows "map_of X' q = map_of X q"
proof -
  from src have rel: "relative_to src base = Inr rel" by (simp add: relative_to_def)
  let ?db = "(base @ [B]) @ rel"
  obtain X1 r1 where mk: "path_mkdir ev X (path_parent ?db) = (X1, r1)"
    by (cases "path_mkdir ev X (path_parent ?db)")
  from path_mkdir_grows[OF mk] have g: "grows_dirs X X1" by simp
  from g q(1) have q1: "map_of X1 q = map_of X q" unfolding grows_dirs_def by metis
  show ?thesis
  proof (cases r1)
    case (Inl e)
    with b rel mk have "X' = X1" by (simp add: backup_one_def Let_def)
    with q1 show ?thesis by simp
  next
    case (Inr u)
    show ?thesis
    proof (cases "shutil_copy2 ev X1 src ?db")
      case e: (Inl e)
      with Inr b rel mk have "X' = X1" by (simp add: backup_one_def Let_def)
      with q1 show ?thesis by simp
    next
      case c: (Inr t)
      obtain X2 d where t: "t = (X2, d)" by (cases t)
      with c Inr b rel mk have e: "X' = X2" by (simp add: backup_one_def Let_def)
      from shutil_copy2_Inr[OF c[unfolded t]] obtain m c0 where
        d: "d = (if is_dir X1 ?db then ?db @ name_parts src else ?db)"
        and up: "map_of X2 = (map_of X1)(d \<mapsto> File (m\<lparr>st_ctime := now ev\<rparr>) c0)"
        by blast
      from d src(2) have "\<exists>rel'. rel' \<noteq> [] \<and> d = base @ B # rel'"
        by (cases "is_dir X1 ?db") auto
      with q(2) have "q \<noteq> d" by blast
      with up e q1 show ?thesis by simp
    qed
  qed
qed

lemma backup_loop_keeps:
  "backup_loop ev base (base @ [B]) files (X, errors, logs) = (X', errors', logs') \<Longrightarrow>
   \<forall>s\<in>set files. \<exists>rel. s = base @ rel \<and> rel \<noteq> [] \<Longrightarrow>
   map_of X q \<noteq> None \<Longrightarrow> \<forall>rel'. rel' \<noteq> [] \<longrightarrow> q \<noteq> base @ B # rel' \<Longrightarrow>
   map_of X' q = map_of X q"
proof (induction files arbitrary: X errors logs)
  case Nil
  then show ?case by simp
next
  case (Cons src rest)
  from Cons.prems(2) obtain rel where rel: "src = base @ rel" "rel \<noteq> []" by auto
  obtain X1 r where b: "backup_one ev X base (base @ [B]) src = (X1, r)"
    by (cases "backup_one ev X base (base @ [B]) src")
  from backup_one_keeps[OF b rel Cons.prems(3) Cons.prems(4)]
  have q1: "map_of X1 q = map_of X q" .
  with Cons.prems(3) have ex1: "map_of X1 q \<noteq> None" by simp
  from Cons.prems(2) have rest: "\<forall>s\<in>set rest. \<exists>rel. s = base @ rel \<and> rel \<noteq> []" by simp
  show ?case
  proof (cases r)
    case (Inl e)
    with Cons.prems(1) b have
      "backup_loop ev base (base @ [B]) rest
         (X1, errors + 1, logs @ [''Backup error '' @ path_str src @ '': '' @ format_exception e])
       = (X', errors', logs')" by simp
    from Cons.IH[OF this rest ex1 Cons.prems(4)] q1 show ?thesis by simp
  next
    case (Inr u)
    with Cons.prems(1) b have
      "backup_loop ev base (base @ [B]) rest (X1, errors, logs) = (X', errors', logs')" by simp
    from Cons.IH[OF this rest ex1 Cons.prems(4)] q1 show ?thesis by simp
  qed
qed

lemma backup_stage_keeps:
  assumes g: "gather_files fs (base_dir options) (include_subdirs options) = Inr files"
    and b: "backup_stage ev options fs files = (fs0, b_errors, b_logs)"
    and s: "s \<in> set files"
  shows "map_of fs0 s = map_of fs s"
proof (cases "copy_no_backup options")
  case True
  with b show ?thesis by (simp add: backup_stage_def)
next
  case False
  let ?B = "backup_prefix @ '' '' @ now_stamp ev"
  from False b have l: "backup_loop ev (base_dir options) (base_dir options @ [?B]) files (fs, 0, [])
                          = (fs0, b_errors, b_logs)"
    by (simp add: backup_stage_def backup_files_def)
  have forms: "\<forall>x\<in>set files. \<exists>rel. x = base_dir options @ rel \<and> rel \<noteq> []"
    using gather_files_candidates[OF g] by blast
  from gather_files_candidates[OF g s] have f: "is_file fs s"
    and safe: "backup_safe (base_dir options) s" by simp_all
  from f have ex: "map_of fs s \<noteq> None" by (auto simp: is_file_iff)
  have "prefix backup_prefix ?B" by simp
  with safe have "\<forall>rel'. rel' \<noteq> [] \<longrightarrow> s \<noteq> base_dir options @ ?B # rel'"
    unfolding backup_safe_def by blast
  from backup_loop_keeps[OF l forms ex this] show ?thesis .
qed

text \<open>The candidates at the start of the relocation loop.\<close>

lemma loop_start:
  assumes dk: "distinct (map fst fs)"
    and g: "gather_files fs (base_dir options) (include_subdirs options) = Inr files"
    and b: "backup_stage ev options fs files = (fs0, b_errors, b_logs)"
  shows "distinct files"
    and "\<forall>s\<in>set files. is_file fs0 s \<and> s \<noteq> []"
    and "\<forall>s\<in>set files. map_of fs0 s = map_of fs s \<and> \<not> dated (base_dir options) s"
proof -
  from gather_files_distinct[OF dk g] show "distinct files" .
  show "\<forall>s\<in>set files. is_file fs0 s \<and> s \<noteq> []"
  proof
    fix s assume s: "s \<in> set files"
    from gather_files_candidates[OF g s] backup_stage_keeps[OF g b s]
    show "is_file fs0 s \<and> s \<noteq> []" by (simp add: is_file_def)
  qed
  show "\<forall>s\<in>set files. map_of fs0 s = map_of fs s \<and> \<not> dated (base_dir options) s"
    using gather_files_candidates[OF g] backup_stage_keeps[OF g b] by blast
qed

lemma step_in_counts:
  "s \<in> set steps \<Longrightarrow> P s \<Longrightarrow> 1 \<le> length (filter P steps)"
  by (induction steps) auto







text \<open>
  C10. A filesystem state lists no path twice. In a run of \<open>sort_files\<close>, when a
  candidate's timestamp was read, its destination directory \<open>base/YYYY/MM\<close> was made
  and the relocation still raised: the exception is the one of the copy or move, run on
  the state that has the directory; the directory is there right after the step and in
  the state \<open>sort_files\<close> returns; the run counts the error and logs its line.
\<close>

theorem sort_files_failed_relocation_leaves_directory:
  assumes "distinct (map fst fs)"
    and "gather_files fs (base_dir options) (include_subdirs options) = Inr files"
    and "backup_stage ev options fs files = (fs0, b_errors, b_logs)"
    and "(src, A, B, Inl e) \<in> set (sort_steps ev options files fs0)"
    and "os_stat A src = Inr st"
    and "fromtimestamp ev (if use_ctime options then st_ctime st else st_mtime st) = Inr (y, m)"
    and "path_mkdir ev A (base_dir options @ [zero_pad 4 y, zero_pad 2 m]) = (A1, Inr ())"
  shows "\<exists>Z moved errors logs.
           sort_files ev options fs = (Z, Inr (moved, errors, logs))
         \<and> is_dir A1 (base_dir options @ [zero_pad 4 y, zero_pad 2 m])
         \<and> (if copy_no_backup options
             then shutil_copy2 ev A1 src
                    (unique_destination_path A1
                       ((base_dir options @ [zero_pad 4 y, zero_pad 2 m]) @ name_parts src)) = Inl e
             else shutil_move ev A1 src
                    (unique_destination_path A1
                       ((base_dir options @ [zero_pad 4 y, zero_pad 2 m]) @ name_parts src)) = (B, Inl e))
         \<and> is_dir B (base_dir options @ [zero_pad 4 y, zero_pad 2 m])
         \<and> is_dir Z (base_dir options @ [zero_pad 4 y, zero_pad 2 m])
         \<and> 1 \<le> errors
         \<and> ''Error moving '' @ path_name src @ '': '' @ kind_name (kind_of e) @ '': '' @ message_of e
             \<in> set logs"
proof -
  note dk = assms(1) and g = assms(2) and b = assms(3) and stp = assms(4)
    and st = assms(5) and ts0 = assms(6) and mk = assms(7)
  let ?S = "sort_steps ev options files fs0"
  let ?Z = "last_state fs0 ?S"
  let ?dd = "base_dir options @ [zero_pad 4 y, zero_pad 2 m]"
  let ?d = "unique_destination_path A1 (?dd @ name_parts src)"
  note start = loop_start[OF dk g b]
  from sort_steps_entry[OF stp start(1) start(2)] obtain post where
    mem: "src \<in> set files" and a: "map_of A src = map_of fs0 src"
    and r: "relocate_one ev options A src = (B, Inl e)"
    and p: "distinct post" "src \<notin> set post"
      "\<forall>s\<in>set post. is_file A s \<and> is_file B s \<and> s \<noteq> []"
      "?Z = last_state B (sort_steps ev options post B)"
    by blast
  from mem have ne: "files \<noteq> []" by auto
  from start(2) mem a have "is_file A src" by (simp add: is_file_def)
  then obtain m0 c0 where fA: "map_of A src = Some (File m0 c0)" by (auto simp: is_file_iff)
  with st have "st = m0" by (simp add: os_stat_def)
  with ts0 have ts: "fromtimestamp ev (if use_ctime options then st_ctime m0 else st_mtime m0)
                       = Inr (y, m)" by auto
  from path_mkdir_grows[OF mk] have d1: "is_dir A1 ?dd" by simp
  from relocate_one_failure[OF r fA ts mk] d1 have dB: "is_dir B ?dd"
    by (auto simp: is_dir_iff)
  note u = relocate_one_unfold[OF os_stat_file[OF fA] ts mk]
  have op: "if copy_no_backup options then shutil_copy2 ev A1 src ?d = Inl e
            else shutil_move ev A1 src ?d = (B, Inl e)"
  proof (cases "copy_no_backup options")
    case True
    with r[unfolded u] show ?thesis
      by (cases "shutil_copy2 ev A1 src ?d") auto
  next
    case False
    obtain X2 r2 where c0: "shutil_move ev A1 src ?d = (X2, r2)"
      by (cases "shutil_move ev A1 src ?d")
    with False r[unfolded u] show ?thesis by (cases r2) auto
  qed
  have inv: "\<forall>s\<in>set post. is_file B s \<and> s \<noteq> []" using p(3) by simp
  have dp: "?dd \<notin> set post"
  proof
    assume "?dd \<in> set post"
    with p(3) have "is_file B ?dd" by simp
    with dB show False by (auto simp: is_file_iff is_dir_iff)
  qed
  from dB have "map_of B ?dd \<noteq> None" by (auto simp: is_dir_iff)
  from sort_steps_keep[OF p(1) inv this dp] p(4) have "map_of ?Z ?dd = map_of B ?dd" by simp
  with dB have dZ: "is_dir ?Z ?dd" by (simp add: is_dir_def)
  have sf: "step_failed (src, A, B, Inl e)" by (simp add: step_failed_def)
  from step_in_counts[of _ ?S step_failed, OF stp sf]
  have cnt: "1 \<le> length (filter step_failed ?S)" .
  have "step_line options (src, A, B, Inl e)
          = ''Error moving '' @ path_name src @ '': '' @ kind_name (kind_of e) @ '': '' @ message_of e"
    by (simp add: step_line_def format_exception_def)
  with stp have line: "''Error moving '' @ path_name src @ '': '' @ kind_name (kind_of e) @ '': ''
                         @ message_of e \<in> set (b_logs @ map (step_line options) ?S)"
    by (metis (no_types, lifting) UnI2 image_eqI list.set_map set_append)
  note run = sort_files_steps[OF g ne b]
  show ?thesis
    using run d1 op dB dZ cnt line
    by (intro exI[of _ ?Z] exI[of _ "length (filter (\<lambda>s. \<not> step_failed s) ?S)"]
          exI[of _ "b_errors + length (filter step_failed ?S)"]
          exI[of _ "b_logs @ map (step_line options) ?S"])
       (simp split: if_splits)
qed

theorem sort_files_failed_relocation_leaves_directory_witness:
  "distinct (map fst fs_one_locked)
   \<and> gather_files fs_one_locked (base_dir (opts False False True)) (include_subdirs (opts False False True))
       = Inr [[''base'', ''a.txt'']]
   \<and> backup_stage ev0 (opts False False True) fs_one_locked [[''base'', ''a.txt'']]
       = (fs_one_locked, 0, [])
   \<and> ([''base'', ''a.txt''], fs_one_locked,
       fs_one_locked @ [([''base'', ''2023''], Dir (rw 1700000000)),
                        ([''base'', ''2023'', ''01''], Dir (rw 1700000000))],
       Inl (os_error PermissionError [''base'', ''a.txt'']))
      \<in> set (sort_steps ev0 (opts False False True) [[''base'', ''a.txt'']] fs_one_locked)
   \<and> os_stat fs_one_locked [''base'', ''a.txt''] = Inr ((rw 1673780400)\<lparr>readable := False\<rparr>)
   \<and> fromtimestamp ev0 (if use_ctime (opts False False True)
                         then st_ctime ((rw 1673780400)\<lparr>readable := False\<rparr>)
                         else st_mtime ((rw 1673780400)\<lparr>readable := False\<rparr>)) = Inr (2023, 1)
   \<and> path_mkdir ev0 fs_one_locked (base_dir (opts False False True) @ [zero_pad 4 2023, zero_pad 2 1])
       = (fs_one_locked @ [([''base'', ''2023''], Dir (rw 1700000000)),
                           ([''base'', ''2023'', ''01''], Dir (rw 1700000000))], Inr ())
   \<and> (\<exists>Z moved errors logs.
         sort_files ev0 (opts False False True) fs_one_locked = (Z, Inr (moved, errors, logs))
         \<and> is_dir (fs_one_locked @ [([''base'', ''2023''], Dir (rw 1700000000)),
                                    ([''base'', ''2023'', ''01''], Dir (rw 1700000000))])
              (base_dir (opts False False True) @ [zero_pad 4 2023, zero_pad 2 1])
         \<and> (if copy_no_backup (opts False False True)
             then shutil_copy2 ev0
                    (fs_one_locked @ [([''base'', ''2023''], Dir (rw 1700000000)),
                                      ([''base'', ''2023'', ''01''], Dir (rw 1700000000))])
                    [''base'', ''a.txt'']
                    (unique_destination_path
                       (fs_one_locked @ [([''base'', ''2023''], Dir (rw 1700000000)),
                                         ([''base'', ''2023'', ''01''], Dir (rw 1700000000))])
                       ((base_dir (opts False False True) @ [zero_pad 4 2023, zero_pad 2 1])
                          @ name_parts [''base'', ''a.txt'']))
                  = Inl (os_error PermissionError [''base'', ''a.txt''])
             else shutil_move ev0
                    (fs_one_locked @ [([''base'', ''2023''], Dir (rw 1700000000)),
                                      ([''base'', ''2023'', ''01''], Dir (rw 1700000000))])
                    [''base'', ''a.txt'']
                    (unique_destination_path
                       (fs_one_locked @ [([''base'', ''2023''], Dir (rw 1700000000)),
                                         ([''base'', ''2023'', ''01''], Dir (rw 1700000000))])
                       ((base_dir (opts False False True) @ [zero_pad 4 2023, zero_pad 2 1])
                          @ name_parts [''base'', ''a.txt'']))
                  = (fs_one_locked @ [([''base'', ''2023''], Dir (rw 1700000000)),
                                      ([''base'', ''2023'', ''01''], Dir (rw 1700000000))],
                     Inl (os_error PermissionError [''base'', ''a.txt''])))
         \<and> is_dir (fs_one_locked @ [([''base'', ''2023''], Dir (rw 1700000000)),
                                    ([''base'', ''2023'', ''01''], Dir (rw 1700000000))])
              (base_dir (opts False False True) @ [zero_pad 4 2023, zero_pad 2 1])
         \<and> is_dir Z (base_dir (opts False False True) @ [zero_pad 4 2023, zero_pad 2 1])
         \<and> 1 \<le> errors
         \<and> ''Error moving '' @ path_name [''base'', ''a.txt''] @ '': ''
             @ kind_name (kind_of (os_error PermissionError [''base'', ''a.txt''])) @ '': ''
             @ message_of (os_error PermissionError [''base'', ''a.txt''])
             \<in> set logs)
   \<and> \<not> path_exists fs_one_locked [''base'', ''2023'', ''01'']
   \<and> is_dir (fst (sort_files ev0 (opts False False True) fs_one_locked)) [''base'', ''2023'', ''01'']
   \<and> snd (sort_files ev0 (opts False False True) fs_one_locked)
       = Inr (0, 1, [''Error moving a.txt: PermissionError: ''
                       @ message_of (os_error PermissionError [''base'', ''a.txt''])])"
proof -
  have d: "distinct (map fst fs_one_locked)" by (simp add: fs_one_locked_def)
  have g: "gather_files fs_one_locked (base_dir (opts False False True))
             (include_subdirs (opts False False True)) = Inr [[''base'', ''a.txt'']]"
    by code_simp
  have b: "backup_stage ev0 (opts False False True) fs_one_locked [[''base'', ''a.txt'']]
             = (fs_one_locked, 0, [])"
    by (simp add: backup_stage_def opts_def)
  have m: "([''base'', ''a.txt''], fs_one_locked,
       fs_one_locked @ [([''base'', ''2023''], Dir (rw 1700000000)),
                        ([''base'', ''2023'', ''01''], Dir (rw 1700000000))],
       Inl (os_error PermissionError [''base'', ''a.txt'']))
      \<in> set (sort_steps ev0 (opts False False True) [[''base'', ''a.txt'']] fs_one_locked)"
    by code_simp
  have s: "os_stat fs_one_locked [''base'', ''a.txt''] = Inr ((rw 1673780400)\<lparr>readable := False\<rparr>)"
    by (simp add: os_stat_def fs_one_locked_def)
  have t: "fromtimestamp ev0 (if use_ctime (opts False False True)
                         then st_ctime ((rw 1673780400)\<lparr>readable := False\<rparr>)
                         else st_mtime ((rw 1673780400)\<lparr>readable := False\<rparr>)) = Inr (2023, 1)"
    by code_simp
  have k: "path_mkdir ev0 fs_one_locked (base_dir (opts False False True) @ [zero_pad 4 2023, zero_pad 2 1])
       = (fs_one_locked @ [([''base'', ''2023''], Dir (rw 1700000000)),
                           ([''base'', ''2023'', ''01''], Dir (rw 1700000000))], Inr ())"
    by code_simp
  have n: "\<not> path_exists fs_one_locked [''base'', ''2023'', ''01'']" by code_simp
  have z: "is_dir (fst (sort_files ev0 (opts False False True) fs_one_locked)) [''base'', ''2023'', ''01'']"
    by code_simp
  have r: "snd (sort_files ev0 (opts False False True) fs_one_locked)
       = Inr (0, 1, [''Error moving a.txt: PermissionError: ''
                       @ message_of (os_error PermissionError [''base'', ''a.txt''])])"
    by code_simp
  note x = sort_files_failed_relocation_leaves_directory[OF d g b m s t k]
  show ?thesis
    by (rule conjI[OF d conjI[OF g conjI[OF b conjI[OF m conjI[OF s conjI[OF t conjI[OF k
          conjI[OF x conjI[OF n conjI[OF z r]]]]]]]]]])
qed

end
